theory Spec2Isabelle
  imports Main "HOL-Library.Sublist" "HOL-Library.Multiset"
begin

section \<open>JavaScript strings\<close>

text \<open>
  Strings of the program are rendered as \<^typ>\<open>string\<close>: a \<^typ>\<open>char\<close> stands
  for a UTF-16 code unit below 256, so the strings of the model are the strings of
  Latin-1 text, and \<open>CHR 0xA0\<close> is the no-break space U+00A0. The helpers below
  follow the ECMAScript definitions of the \<open>String.prototype\<close> methods that
  \<open>main.js\<close> calls: \<open>startsWith\<close>, \<open>endsWith\<close>, \<open>includes\<close>,
  \<open>slice\<close>, \<open>trim\<close>, \<open>split\<close> and \<open>replace\<close> with a global pattern.
\<close>

definition startsWith :: "string \<Rightarrow> string \<Rightarrow> bool" where
  "startsWith s p = (take (length p) s = p)"

definition endsWith :: "string \<Rightarrow> string \<Rightarrow> bool" where
  "endsWith s p = (length p \<le> length s \<and> drop (length s - length p) s = p)"

text \<open>\<open>s.includes(c)\<close> for a one-character needle.\<close>

definition includes_chr :: "string \<Rightarrow> char \<Rightarrow> bool" where
  "includes_chr s c = (c \<in> set s)"

text \<open>\<open>s.slice(b, e)\<close>: a negative index counts from the end, both are clamped.\<close>

definition slice_index :: "nat \<Rightarrow> int \<Rightarrow> nat" where
  "slice_index n i = (if i < 0 then nat (max (int n + i) 0) else min (nat i) n)"

definition slice :: "string \<Rightarrow> int \<Rightarrow> int \<Rightarrow> string" where
  "slice s b e =
     (let i = slice_index (length s) b; j = slice_index (length s) e
      in take (j - i) (drop i s))"

text \<open>
  What \<open>trim\<close> strips: the white space and line terminators of ECMAScript. Below
  256 these are TAB, LF, VT, FF, CR, the space and the no-break space; the others
  (U+FEFF, U+1680, U+2000 to U+200A, U+2028, U+2029, U+202F, U+205F, U+3000) are
  code units that the strings of the model do not hold.
\<close>

definition is_space :: "char \<Rightarrow> bool" where
  "is_space c =
     (c \<in> set [CHR 0x09, CHR 0x0A, CHR 0x0B, CHR 0x0C, CHR 0x0D, CHR '' '', CHR 0xA0])"

definition trim :: "string \<Rightarrow> string" where
  "trim s = rev (dropWhile is_space (rev (dropWhile is_space s)))"

text \<open>\<open>s.split(c)\<close> for a one-character separator: never the empty list.\<close>

fun split :: "char \<Rightarrow> string \<Rightarrow> string list" where
  "split c [] = [[]]"
| "split c (x # xs) =
     (if x = c then [] # split c xs
      else (case split c xs of [] \<Rightarrow> [[x]] | p # ps \<Rightarrow> (x # p) # ps))"

text \<open>\<open>s.replace(/\./g, '/')\<close>: every dot becomes a slash.\<close>

definition replace_dots :: "string \<Rightarrow> string" where
  "replace_dots s = map (\<lambda>c. if c = CHR ''.'' then CHR ''/'' else c) s"

section \<open>Version ranges\<close>

text \<open>
  The object returned by \<open>parseVersionRange\<close>: either the range object, whose
  \<open>min\<close> field is set, or \<open>{exact: versionRange}\<close>, whose \<open>min\<close> field is
  \<open>undefined\<close>.
\<close>

datatype version_range =
    MinRange (rmin: string) (includeMin: bool) (rmax: "string option") (includeMax: bool)
  | ExactVersion (exact: string)

definition parseVersionRange :: "string \<Rightarrow> version_range" where
  "parseVersionRange versionRange =
     (let v = trim versionRange in
      if startsWith v ''['' \<and> endsWith v '')''
      then MinRange (slice v 1 (- 2)) True None False
      else ExactVersion v)"

text \<open>Reading \<open>.min\<close> of the result: \<open>None\<close> is \<open>undefined\<close>.\<close>

fun range_min :: "version_range \<Rightarrow> string option" where
  "range_min (MinRange m _ _ _) = Some m"
| "range_min (ExactVersion _) = None"

section \<open>Values of the parsed document\<close>

text \<open>
  \<open>xml2js\<close> turns a document into nested objects, arrays and strings, and the
  program reads them with dynamic property access. \<open>JNum\<close> is there for the
  \<open>length\<close> of a string or an array. \<open>null\<close> and \<open>undefined\<close> are kept
  apart. \<open>JBuiltin\<close> is what a read finds on the prototype chain instead of an
  own property: a built-in function such as \<open>toString\<close>, or a prototype object
  for \<open>__proto__\<close>. The parsed document holds no such value.
\<close>

datatype jsval =
    JUndefined
  | JNull
  | JNum nat
  | JStr string
  | JArr "jsval list"
  | JObj "(string \<times> jsval) list"
  | JBuiltin

datatype js_error = TypeError

fun truthy :: "jsval \<Rightarrow> bool" where
  "truthy JUndefined = False"
| "truthy JNull = False"
| "truthy (JNum n) = (n \<noteq> 0)"
| "truthy (JStr s) = (s \<noteq> [])"
| "truthy (JArr _) = True"
| "truthy (JObj _) = True"
| "truthy JBuiltin = True"

text \<open>
  The names that every object inherits from \<open>Object.prototype\<close>, and those that
  strings, arrays and numbers inherit from their own prototypes in addition (as in
  Node.js 20).
\<close>

definition object_members :: "string list" where
  "object_members =
     [''constructor'', ''__defineGetter__'', ''__defineSetter__'', ''hasOwnProperty'',
      ''__lookupGetter__'', ''__lookupSetter__'', ''isPrototypeOf'', ''propertyIsEnumerable'',
      ''toString'', ''valueOf'', ''__proto__'', ''toLocaleString'']"

definition string_members :: "string list" where
  "string_members =
     [''anchor'', ''at'', ''big'', ''blink'', ''bold'', ''charAt'', ''charCodeAt'',
      ''codePointAt'', ''concat'', ''endsWith'', ''fixed'', ''fontcolor'', ''fontsize'',
      ''includes'', ''indexOf'', ''isWellFormed'', ''italics'', ''lastIndexOf'', ''link'',
      ''localeCompare'', ''match'', ''matchAll'', ''normalize'', ''padEnd'', ''padStart'',
      ''repeat'', ''replace'', ''replaceAll'', ''search'', ''slice'', ''small'', ''split'',
      ''startsWith'', ''strike'', ''sub'', ''substr'', ''substring'', ''sup'',
      ''toLocaleLowerCase'', ''toLocaleUpperCase'', ''toLowerCase'', ''toUpperCase'',
      ''toWellFormed'', ''trim'', ''trimEnd'', ''trimLeft'', ''trimRight'', ''trimStart'']"

definition array_members :: "string list" where
  "array_members =
     [''at'', ''concat'', ''copyWithin'', ''entries'', ''every'', ''fill'', ''filter'',
      ''find'', ''findIndex'', ''findLast'', ''findLastIndex'', ''flat'', ''flatMap'',
      ''forEach'', ''includes'', ''indexOf'', ''join'', ''keys'', ''lastIndexOf'', ''map'',
      ''pop'', ''push'', ''reduce'', ''reduceRight'', ''reverse'', ''shift'', ''slice'',
      ''some'', ''sort'', ''splice'', ''toReversed'', ''toSorted'', ''toSpliced'',
      ''unshift'', ''values'', ''with'']"

definition number_members :: "string list" where
  "number_members = [''toExponential'', ''toFixed'', ''toPrecision'']"

text \<open>A name that is no own property: the inherited member, or \<open>undefined\<close>.\<close>

definition inherited :: "string list \<Rightarrow> string \<Rightarrow> jsval" where
  "inherited members k = (if k \<in> set members \<or> k \<in> set object_members then JBuiltin else JUndefined)"

definition is_digit :: "char \<Rightarrow> bool" where
  "is_digit c = (48 \<le> (of_char c :: nat) \<and> (of_char c :: nat) \<le> 57)"

definition decimal :: "string \<Rightarrow> nat" where
  "decimal s = foldl (\<lambda>a c. 10 * a + (of_char c - 48)) (0::nat) s"

text \<open>A property name is an array index when it is a canonical decimal numeral.\<close>

definition array_index :: "string \<Rightarrow> nat option" where
  "array_index k =
     (if k = ''0'' then Some 0
      else if k \<noteq> [] \<and> list_all is_digit k \<and> hd k \<noteq> CHR ''0'' then Some (decimal k)
      else None)"

text \<open>
  \<open>v[k]\<close>: reading a property of \<open>undefined\<close> or \<open>null\<close> throws. An own
  property comes before an inherited one. Of a built-in the program reads index
  \<open>0\<close> only, which is \<open>undefined\<close>; beyond the members of \<open>Object.prototype\<close>,
  what a built-in holds under other names (the \<open>length\<close> and \<open>name\<close> of a
  function, say) is not modelled.
\<close>

fun get_prop :: "jsval \<Rightarrow> string \<Rightarrow> js_error + jsval" where
  "get_prop JUndefined k = Inl TypeError"
| "get_prop JNull k = Inl TypeError"
| "get_prop (JNum n) k = Inr (inherited number_members k)"
| "get_prop (JStr s) k =
     (if k = ''length'' then Inr (JNum (length s))
      else case array_index k of
             Some i \<Rightarrow> Inr (if i < length s then JStr [s ! i] else JUndefined)
           | None \<Rightarrow> Inr (inherited string_members k))"
| "get_prop (JArr xs) k =
     (if k = ''length'' then Inr (JNum (length xs))
      else case array_index k of
             Some i \<Rightarrow> Inr (if i < length xs then xs ! i else JUndefined)
           | None \<Rightarrow> Inr (inherited array_members k))"
| "get_prop (JObj kvs) k =
     Inr (case map_of kvs k of Some v \<Rightarrow> v | None \<Rightarrow> inherited [] k)"
| "get_prop JBuiltin k = Inr (inherited [] k)"

definition bind_err :: "js_error + 'a \<Rightarrow> ('a \<Rightarrow> js_error + 'b) \<Rightarrow> js_error + 'b" where
  "bind_err m f = (case m of Inl e \<Rightarrow> Inl e | Inr x \<Rightarrow> f x)"

section \<open>Resolving a version expression\<close>

text \<open>
  The loop of \<open>resolveVersion\<close> over the dot-separated parts of a property
  name: \<open>current[part] && current[part][0]\<close> decides whether to descend.
\<close>

fun walk_parts :: "jsval \<Rightarrow> string list \<Rightarrow> js_error + jsval" where
  "walk_parts current [] = Inr current"
| "walk_parts current (part # parts) =
     bind_err (get_prop current part) (\<lambda>x.
       if \<not> truthy x then Inr JNull
       else bind_err (get_prop x ''0'') (\<lambda>y.
         if \<not> truthy y then Inr JNull else walk_parts y parts))"

definition is_range_syntax :: "string \<Rightarrow> bool" where
  "is_range_syntax v =
     (includes_chr v CHR ''['' \<and> includes_chr v CHR '']''
      \<or> includes_chr v CHR ''('' \<or> includes_chr v CHR '')'')"

text \<open>\<open>versionRange.min || version\<close>: an absent or empty minimum gives the version.\<close>

definition resolve_range :: "string \<Rightarrow> string" where
  "resolve_range v =
     (if is_range_syntax v
      then (case range_min (parseVersionRange v) of
              Some m \<Rightarrow> if m \<noteq> [] then m else v
            | None \<Rightarrow> v)
      else v)"

definition resolveVersion :: "jsval \<Rightarrow> jsval \<Rightarrow> js_error + jsval" where
  "resolveVersion version properties =
     (if \<not> truthy version then Inr JNull
      else case version of
        JStr v \<Rightarrow>
          if startsWith v ''${'' \<and> endsWith v ''}'' \<and> truthy properties
          then (let propertyName = slice v 2 (- 1) in
                bind_err (get_prop properties propertyName) (\<lambda>direct.
                  if truthy direct then get_prop direct ''0''
                  else walk_parts properties (split CHR ''.'' propertyName)))
          else Inr (JStr (resolve_range v))
      | _ \<Rightarrow> Inl TypeError)"

section \<open>Resolving the versions of a parsed descriptor\<close>

fun show_nat :: "nat \<Rightarrow> string" where
  "show_nat n =
     (if n < 10 then [char_of (48 + n)]
      else show_nat (n div 10) @ [char_of (48 + n mod 10)])"

text \<open>The own enumerable properties that an object spread \<open>{...v}\<close> copies.\<close>

fun own_props :: "jsval \<Rightarrow> (string \<times> jsval) list" where
  "own_props (JObj kvs) = kvs"
| "own_props (JArr xs) = map (\<lambda>i. (show_nat i, xs ! i)) [0 ..< length xs]"
| "own_props (JStr s) = map (\<lambda>i. (show_nat i, JStr [s ! i])) [0 ..< length s]"
| "own_props _ = []"

text \<open>Writing a key of an object literal: an existing key keeps its place.\<close>

fun set_own :: "(string \<times> jsval) list \<Rightarrow> string \<Rightarrow> jsval \<Rightarrow> (string \<times> jsval) list" where
  "set_own [] k v = [(k, v)]"
| "set_own ((k', v') # kvs) k v =
     (if k' = k then (k, v) # kvs else (k', v') # set_own kvs k v)"

text \<open>
  The callback that \<open>parsePomXml\<close> maps over the declarations:
  \<open>dep => ({...dep, version: dep.version ? [resolveVersion(dep.version[0], properties)] : []})\<close>.
\<close>

definition resolve_declaration :: "jsval \<Rightarrow> jsval \<Rightarrow> js_error + jsval" where
  "resolve_declaration properties dep =
     bind_err (get_prop dep ''version'') (\<lambda>v.
       if truthy v
       then bind_err (get_prop v ''0'') (\<lambda>v0.
              bind_err (resolveVersion v0 properties) (\<lambda>r.
                Inr (JObj (set_own (own_props dep) ''version'' (JArr [r])))))
       else Inr (JObj (set_own (own_props dep) ''version'' (JArr []))))"

section \<open>Collecting the dependencies of a parsed descriptor\<close>

text \<open>
  A dependency \<open>{groupId, artifactId, version}\<close>. As \<open>getDependencies\<close> pushes
  it, the three fields are whatever index \<open>0\<close> of the declaration's fields holds;
  the walker below works on dependencies whose fields are strings.
\<close>

record 'a dependency =
  groupId :: 'a
  artifactId :: 'a
  version :: 'a

text \<open>
  The body of the \<open>forEach\<close> callback: \<open>None\<close> is the skipped declaration,
  \<open>Some d\<close> the pushed one.
\<close>

definition collect_dep :: "jsval \<Rightarrow> js_error + jsval dependency option" where
  "collect_dep dep =
     bind_err (get_prop dep ''groupId'') (\<lambda>g.
       if \<not> truthy g then Inr None
       else bind_err (get_prop dep ''artifactId'') (\<lambda>a.
         if \<not> truthy a then Inr None
         else bind_err (get_prop dep ''version'') (\<lambda>v.
           if \<not> truthy v then Inr None
           else bind_err (get_prop v ''0'') (\<lambda>v0.
             if \<not> truthy v0 then Inr None
             else bind_err (get_prop g ''0'') (\<lambda>g0.
               bind_err (get_prop a ''0'') (\<lambda>a0.
                 Inr (Some \<lparr>groupId = g0, artifactId = a0, version = v0\<rparr>)))))))"

fun collect_deps :: "jsval list \<Rightarrow> js_error + jsval dependency list" where
  "collect_deps [] = Inr []"
| "collect_deps (dep # deps) =
     bind_err (collect_dep dep) (\<lambda>r.
       bind_err (collect_deps deps) (\<lambda>rs.
         Inr (case r of None \<Rightarrow> rs | Some d \<Rightarrow> d # rs)))"

text \<open>
  \<open>getDependencies\<close>: calling \<open>forEach\<close> on a value that is not an array
  throws.
\<close>

definition getDependencies :: "jsval \<Rightarrow> js_error + jsval dependency list" where
  "getDependencies pomObj =
     (if \<not> truthy pomObj then Inr []
      else bind_err (get_prop pomObj ''project'') (\<lambda>project.
        if \<not> truthy project then Inr []
        else bind_err (get_prop project ''dependencies'') (\<lambda>dependencies.
          if \<not> truthy dependencies then Inr []
          else bind_err (get_prop dependencies ''0'') (\<lambda>d0.
            bind_err (get_prop d0 ''dependency'') (\<lambda>deps.
              if \<not> truthy deps then Inr []
              else case deps of JArr ds \<Rightarrow> collect_deps ds | _ \<Rightarrow> Inl TypeError)))))"

section \<open>Names and paths of one coordinate\<close>

text \<open>
  The start of \<open>downloadDependency\<close>, for a coordinate whose three fields are
  strings: \<open>None\<close> is an \<open>undefined\<close> \<open>actualVersion\<close>, which
  concatenation and template literals print as \<open>undefined\<close>.
\<close>

definition actualVersion :: "string \<Rightarrow> string option" where
  "actualVersion v =
     (if includes_chr v CHR ''['' \<or> includes_chr v CHR ''(''
      then range_min (parseVersionRange v)
      else Some v)"

fun print_version :: "string option \<Rightarrow> string" where
  "print_version None = ''undefined''"
| "print_version (Some v) = v"

definition dependencyKey :: "string \<Rightarrow> string \<Rightarrow> string \<Rightarrow> string" where
  "dependencyKey g a v = g @ '':'' @ a @ '':'' @ v"

definition artifactPath :: "string \<Rightarrow> string \<Rightarrow> string \<Rightarrow> string" where
  "artifactPath g a v = replace_dots g @ ''/'' @ a @ ''/'' @ print_version (actualVersion v)"

definition jarName :: "string \<Rightarrow> string \<Rightarrow> string" where
  "jarName a v = a @ ''-'' @ print_version (actualVersion v) @ ''.jar''"

definition pomName :: "string \<Rightarrow> string \<Rightarrow> string" where
  "pomName a v = a @ ''-'' @ print_version (actualVersion v) @ ''.pom''"

definition MAVEN_CENTRAL_URL :: string where
  "MAVEN_CENTRAL_URL = ''https://repo1.maven.org/maven2''"

definition jarUrl :: "string \<Rightarrow> string \<Rightarrow> string \<Rightarrow> string" where
  "jarUrl g a v = MAVEN_CENTRAL_URL @ ''/'' @ artifactPath g a v @ ''/'' @ jarName a v"

definition pomUrl :: "string \<Rightarrow> string \<Rightarrow> string \<Rightarrow> string" where
  "pomUrl g a v = MAVEN_CENTRAL_URL @ ''/'' @ artifactPath g a v @ ''/'' @ pomName a v"

text \<open>
  What the specification calls a declaration with its group, artifact and version:
  the field is there and holds something, and the version has resolved.
\<close>

definition field :: "jsval \<Rightarrow> string \<Rightarrow> jsval" where
  "field v k = (case get_prop v k of Inr x \<Rightarrow> x | Inl _ \<Rightarrow> JUndefined)"

definition complete_declaration :: "jsval \<Rightarrow> bool" where
  "complete_declaration dep =
     (truthy (field dep ''groupId'') \<and> truthy (field dep ''artifactId'')
      \<and> truthy (field dep ''version'') \<and> truthy (field (field dep ''version'') ''0''))"

definition coordinate_of :: "jsval \<Rightarrow> jsval dependency" where
  "coordinate_of dep =
     \<lparr>groupId = field (field dep ''groupId'') ''0'',
      artifactId = field (field dep ''artifactId'') ''0'',
      version = field (field dep ''version'') ''0''\<rparr>"

text \<open>The shape \<open>[min,)\<close> of an open-ended range, as the specification writes it.\<close>

definition min_range_shape :: "string \<Rightarrow> bool" where
  "min_range_shape v = (startsWith v ''['' \<and> endsWith v '',)'')"


section \<open>Fetching one file\<close>

text \<open>
  \<open>downloadFile(url, dest)\<close> talks to three things outside the program: the file
  system, the write stream it opens on \<open>dest\<close>, and the server behind
  \<open>https.get\<close>. The server is a parameter: it answers a request with a response
  (status code, \<open>Location\<close> header if any, body, and whether the body arrives to
  its end), or with an \<open>error\<close> event on the request, or not at all. Every
  address is taken to be one that \<open>https.get\<close> accepts.
\<close>

datatype agent = SocksProxyAgent string | HttpProxyAgent string

record options =
  headers :: "(string \<times> string) list"
  timeout :: "nat option"
  agent :: "agent option"

record proxy_config =
  enabled :: bool
  socks :: "string option"
  http :: "string option"

definition PROXY_CONFIG :: proxy_config where
  "PROXY_CONFIG = \<lparr>enabled = True, socks = Some ''socks5://127.0.0.1:11080'', http = None\<rparr>"

text \<open>\<open>null\<close> and the empty string are falsy.\<close>

fun configured :: "string option \<Rightarrow> bool" where
  "configured None = False"
| "configured (Some s) = (s \<noteq> [])"

definition request_options :: "proxy_config \<Rightarrow> options" where
  "request_options cfg =
     \<lparr>headers =
        [(''User-Agent'', ''Mozilla/5.0 (Windows NT 10.0; Win64; x64) AppleWebKit/537.36 (KHTML, like Gecko) Chrome/91.0.4472.124 Safari/537.36''),
         (''Accept'', ''*/*'')],
      timeout = Some 10000,
      agent =
        (if enabled cfg then
           (if configured (socks cfg) then Some (SocksProxyAgent (the (socks cfg)))
            else if configured (http cfg) then Some (HttpProxyAgent (the (http cfg)))
            else None)
         else None)\<rparr>"

text \<open>
  \<open>Idle\<close> is the socket that stays silent: when the \<open>timeout\<close> of the options
  has passed, Node emits \<open>timeout\<close> on the request and does nothing else.
\<close>

datatype reply =
    Response (statusCode: nat) (location: "string option") (body: string) (complete: bool)
  | RequestError string
  | Idle

type_synonym server = "string \<Rightarrow> options \<Rightarrow> reply"

datatype fetch_error = FileNotFound | HttpStatus nat | Transport string

text \<open>
  How the promise ends: resolved, rejected, never settled, or an exception that
  nothing catches.
\<close>

datatype settled = Resolved | Rejected fetch_error | Unsettled | Uncaught

text \<open>What \<open>downloadFile\<close> does to the outside, in program order.\<close>

datatype event =
    CreateWriteStream string
  | Get string options
  | Close
  | Unlink string
  | Pipe string

text \<open>
  The tail of the handler for a status other than 301 and 302, shared in shape by the
  first response and by the response to the follow-up request.
\<close>

definition terminal_response :: "string \<Rightarrow> nat \<Rightarrow> string \<Rightarrow> bool \<Rightarrow> bool \<Rightarrow> settled \<times> event list" where
  "terminal_response dest status content whole stream_open =
     (if status = 404 then (Rejected FileNotFound, [Close, Unlink dest])
      else if status \<noteq> 200 then (Rejected (HttpStatus status), [Close, Unlink dest])
      else (if stream_open \<and> whole then Resolved else Unsettled, [Pipe content]))"

text \<open>
  The request that \<open>https.get(undefined, options, callback)\<close> makes. An argument
  that is \<open>undefined\<close> is neither an address nor options, so the two that follow
  it are not looked at: the request goes to the default target with no options and
  no callback for the response.
\<close>

definition default_url :: string where
  "default_url = ''https://localhost/''"

definition default_options :: options where
  "default_options = \<lparr>headers = [], timeout = None, agent = None\<rparr>"

text \<open>
  After \<open>file.close()\<close> the stream has emitted \<open>finish\<close> and takes no more
  data, so a body piped into it after a redirect is not written and the
  \<open>finish\<close> listener registered then is never called. The only listeners on a
  request are the callback for the response and the one for \<open>error\<close>: a request
  that stays idle leaves the promise unsettled.
\<close>

definition downloadFile :: "proxy_config \<Rightarrow> server \<Rightarrow> string \<Rightarrow> string \<Rightarrow> settled \<times> event list" where
  "downloadFile cfg net url dest =
     (let opts = request_options cfg;
          start = [CreateWriteStream dest, Get url opts]
      in case net url opts of
           RequestError err \<Rightarrow> (Rejected (Transport err), start @ [Unlink dest])
         | Idle \<Rightarrow> (Unsettled, start)
         | Response status loc content whole \<Rightarrow>
             if status = 302 \<or> status = 301 then
               (case loc of
                  None \<Rightarrow>
                    (case net default_url default_options of
                       RequestError err \<Rightarrow>
                         (Rejected (Transport err),
                          start @ [Close, Unlink dest, Get default_url default_options, Unlink dest])
                     | _ \<Rightarrow>
                         (Unsettled, start @ [Close, Unlink dest, Get default_url default_options]))
                | Some redirectUrl \<Rightarrow>
                    (case net redirectUrl opts of
                       RequestError err \<Rightarrow>
                         (Rejected (Transport err),
                          start @ [Close, Unlink dest, Get redirectUrl opts, Unlink dest])
                     | Idle \<Rightarrow>
                         (Unsettled, start @ [Close, Unlink dest, Get redirectUrl opts])
                     | Response status2 _ content2 whole2 \<Rightarrow>
                         (let (out, evs) = terminal_response dest status2 content2 whole2 False
                          in (out, start @ [Close, Unlink dest, Get redirectUrl opts] @ evs))))
             else
               (let (out, evs) = terminal_response dest status content whole True
                in (out, start @ evs)))"

text \<open>The file system: the files by path, and whether the write stream is open.\<close>

type_synonym files = "string \<rightharpoonup> string"

fun apply_event :: "string \<Rightarrow> files \<times> bool \<Rightarrow> event \<Rightarrow> files \<times> bool" where
  "apply_event dest (fs, stream_open) (CreateWriteStream p) = (fs(p \<mapsto> []), True)"
| "apply_event dest (fs, stream_open) (Get u opts) = (fs, stream_open)"
| "apply_event dest (fs, stream_open) Close = (fs, False)"
| "apply_event dest (fs, stream_open) (Unlink p) = (fs(p := None), stream_open)"
| "apply_event dest (fs, stream_open) (Pipe content) =
     (if stream_open \<and> fs dest \<noteq> None then fs(dest \<mapsto> content) else fs, stream_open)"

definition files_after :: "string \<Rightarrow> files \<Rightarrow> event list \<Rightarrow> files" where
  "files_after dest fs evs = fst (foldl (apply_event dest) (fs, False) evs)"

text \<open>The requests among the events, in order.\<close>

fun requests :: "event list \<Rightarrow> (string \<times> options) list" where
  "requests [] = []"
| "requests (Get u opts # evs) = (u, opts) # requests evs"
| "requests (_ # evs) = requests evs"

text \<open>
  Three servers: one whose body breaks off, one that redirects without a
  \<open>Location\<close> and refuses the connection to the default target, and one that
  stays silent.
\<close>

definition broken_body_server :: server where
  "broken_body_server url opts = Response 200 None ''part'' False"

definition bare_redirect_server :: server where
  "bare_redirect_server url opts =
     (if url = default_url then RequestError ''ECONNREFUSED'' else Response 301 None [] True)"


section \<open>The walker\<close>

text \<open>
  What \<open>downloadDependency\<close> needs from outside the program is collected in an
  environment: \<open>path.join\<close>, the server, the proxy configuration, the repository
  path, and \<open>descriptor\<close>, which stands for \<open>parsePomXml\<close> followed by
  \<open>getDependencies\<close> on the content of a descriptor file (\<open>None\<close> when parsing
  fails or yields nothing). The fields of a dependency are strings here.
\<close>

record env =
  path_join :: "string \<Rightarrow> string \<Rightarrow> string"
  server :: server
  proxy :: proxy_config
  repositoryPath :: string
  descriptor :: "string \<Rightarrow> string dependency list option"

definition CONCURRENT_DOWNLOADS :: nat where
  "CONCURRENT_DOWNLOADS = 5"

definition key_of :: "string dependency \<Rightarrow> string" where
  "key_of d = dependencyKey (groupId d) (artifactId d) (version d)"

definition localPath :: "env \<Rightarrow> string dependency \<Rightarrow> string" where
  "localPath e d =
     path_join e (repositoryPath e) (artifactPath (groupId d) (artifactId d) (version d))"

definition localJarPath :: "env \<Rightarrow> string dependency \<Rightarrow> string" where
  "localJarPath e d = path_join e (localPath e d) (jarName (artifactId d) (version d))"

definition pomFilePath :: "env \<Rightarrow> string dependency \<Rightarrow> string" where
  "pomFilePath e d = path_join e (localPath e d) (pomName (artifactId d) (version d))"

text \<open>
  The program state: the set \<open>downloadedDependencies\<close>, the files, and three
  records kept for the proofs. \<open>processed\<close> lists the keys in the order in which
  they were added to the set, \<open>fetches\<close> lists, for each dependency that got past
  \<open>mkdirp\<close>, its key and the calls of \<open>downloadFile\<close> it made (address and
  destination), \<open>crashed\<close> says that an exception went uncaught.
\<close>

record state =
  downloadedDependencies :: "string set"
  files :: files
  processed :: "string list"
  fetches :: "(string \<times> (string \<times> string) list) list"
  crashed :: bool

text \<open>
  One call of \<open>downloadDependency\<close> between two of its \<open>await\<close>s, or one
  \<open>for\<close> loop over chunks (that of \<open>main\<close>, or that of a call that has parsed
  its descriptor) with the calls of the current chunk.
\<close>

datatype task =
    AwaitMkdirp "string dependency"
  | AwaitDownloads "string dependency" "(string \<times> string) list"
  | AwaitParse "string dependency list option"
  | AwaitChunk "task list" "string dependency list list"
  | Hung
  | Done

text \<open>
  \<open>downloadDependency\<close> up to \<open>await mkdirp\<close>: no other code runs between the
  test of the set and the insertion.
\<close>

definition enter :: "state \<Rightarrow> string dependency \<Rightarrow> state \<times> task" where
  "enter s d =
     (if groupId d = [] \<or> artifactId d = [] \<or> version d = [] then (s, Done)
      else if key_of d \<in> downloadedDependencies s then (s, Done)
      else (s\<lparr>downloadedDependencies := insert (key_of d) (downloadedDependencies s),
              processed := processed s @ [key_of d]\<rparr>,
            AwaitMkdirp d))"

text \<open>\<open>chunk.map(dep => downloadDependency(dep, repositoryPath))\<close>, left to right.\<close>

fun dispatch :: "state \<Rightarrow> string dependency list \<Rightarrow> state \<times> task list" where
  "dispatch s [] = (s, [])"
| "dispatch s (d # ds) =
     (let (s1, t) = enter s d; (s2, ts) = dispatch s1 ds in (s2, t # ts))"

text \<open>The chunks: \<open>for (i = 0; i < deps.length; i += CONCURRENT_DOWNLOADS)\<close>.\<close>

function chunks_from :: "nat \<Rightarrow> 'a list \<Rightarrow> 'a list list" where
  "chunks_from i xs =
     (if i < length xs
      then take CONCURRENT_DOWNLOADS (drop i xs) # chunks_from (i + CONCURRENT_DOWNLOADS) xs
      else [])"
  by pat_completeness auto
termination
  by (relation "measure (\<lambda>(i, xs). length xs - i)") (auto simp: CONCURRENT_DOWNLOADS_def)

definition chunks :: "'a list \<Rightarrow> 'a list list" where
  "chunks xs = chunks_from 0 xs"

text \<open>Starting the loop over the chunks, or going on to the next chunk.\<close>

fun next_chunk :: "state \<Rightarrow> string dependency list list \<Rightarrow> state \<times> task" where
  "next_chunk s [] = (s, Done)"
| "next_chunk s (c # cs) = (let (s1, ts) = dispatch s c in (s1, AwaitChunk ts cs))"

text \<open>The files to fetch: each of the two that \<open>fs.existsSync\<close> does not find.\<close>

definition downloadTasks :: "env \<Rightarrow> files \<Rightarrow> string dependency \<Rightarrow> (string \<times> string) list" where
  "downloadTasks e fs d =
     (if fs (localJarPath e d) = None
      then [(jarUrl (groupId d) (artifactId d) (version d), localJarPath e d)] else [])
     @ (if fs (pomFilePath e d) = None
        then [(pomUrl (groupId d) (artifactId d) (version d), pomFilePath e d)] else [])"

text \<open>
  From the check of the descriptor file to the call of \<open>parsePomXml\<close>, which reads
  the file at once.
\<close>

definition check_pom :: "env \<Rightarrow> state \<Rightarrow> string dependency \<Rightarrow> state \<times> task" where
  "check_pom e s d =
     (case files s (pomFilePath e d) of
        None \<Rightarrow> (s, Done)
      | Some content \<Rightarrow>
          if length content = 0
          then (s\<lparr>files := (files s)((pomFilePath e d) := None)\<rparr>, Done)
          else (s, AwaitParse (descriptor e content)))"

text \<open>After \<open>await mkdirp\<close>: the downloads are started, or there is none to wait for.\<close>

definition after_mkdirp :: "env \<Rightarrow> state \<Rightarrow> string dependency \<Rightarrow> state \<times> task" where
  "after_mkdirp e s d =
     (let ts = downloadTasks e (files s) d;
          s1 = s\<lparr>fetches := fetches s @ [(key_of d, ts)]\<rparr>
      in if ts = [] then check_pom e s1 d else (s1, AwaitDownloads d ts))"

text \<open>
  When the downloads have come to their ends. Their effects on the files are applied
  together. \<open>Promise.all\<close> is rejected as soon as one download is, and the
  \<open>catch\<close> ends the call; it never settles when one download never does and none
  is rejected.
\<close>

definition write_files :: "env \<Rightarrow> files \<Rightarrow> (string \<times> string) list \<Rightarrow> files" where
  "write_files e fs ts =
     foldl (\<lambda>fs (url, dest). files_after dest fs (snd (downloadFile (proxy e) (server e) url dest)))
       fs ts"

definition outcomes :: "env \<Rightarrow> (string \<times> string) list \<Rightarrow> settled list" where
  "outcomes e ts = map (\<lambda>(url, dest). fst (downloadFile (proxy e) (server e) url dest)) ts"

definition is_rejected :: "settled \<Rightarrow> bool" where
  "is_rejected out = (case out of Rejected _ \<Rightarrow> True | _ \<Rightarrow> False)"

definition after_downloads ::
  "env \<Rightarrow> state \<Rightarrow> string dependency \<Rightarrow> (string \<times> string) list \<Rightarrow> state \<times> task" where
  "after_downloads e s d ts =
     (let s1 = s\<lparr>files := write_files e (files s) ts\<rparr>; outs = outcomes e ts
      in if Uncaught \<in> set outs then (s1\<lparr>crashed := True\<rparr>, Hung)
         else if list_ex is_rejected outs then (s1, Done)
         else if Unsettled \<in> set outs then (s1, Hung)
         else check_pom e s1 d)"

text \<open>After \<open>await parsePomXml\<close>: a rejection or \<open>null\<close> ends the call.\<close>

fun after_parse :: "state \<Rightarrow> string dependency list option \<Rightarrow> state \<times> task" where
  "after_parse s None = (s, Done)"
| "after_parse s (Some transitiveDeps) = next_chunk s (chunks transitiveDeps)"

fun finished :: "task \<Rightarrow> bool" where
  "finished Done = True"
| "finished _ = False"

text \<open>
  One step of the event loop: some call resumes after the \<open>await\<close> it is suspended
  at and runs to its next one. Which call resumes is not determined.
\<close>

inductive step :: "env \<Rightarrow> state \<times> task \<Rightarrow> state \<times> task \<Rightarrow> bool" for e :: env where
  Mkdirp: "step e (s, AwaitMkdirp d) (after_mkdirp e s d)"
| Downloads: "step e (s, AwaitDownloads d ts) (after_downloads e s d ts)"
| Parse: "step e (s, AwaitParse r) (after_parse s r)"
| Chunk: "list_all finished ts \<Longrightarrow> step e (s, AwaitChunk ts cs) (next_chunk s cs)"
| Inner: "step e (s, t) (s', t') \<Longrightarrow>
          step e (s, AwaitChunk (ts1 @ t # ts2) cs) (s', AwaitChunk (ts1 @ t' # ts2) cs)"

text \<open>Nothing runs after an uncaught exception.\<close>

definition run_step :: "env \<Rightarrow> state \<times> task \<Rightarrow> state \<times> task \<Rightarrow> bool" where
  "run_step e c c' = (\<not> crashed (fst c) \<and> step e c c')"

text \<open>\<open>main\<close> from the loop over the chunks of the root dependencies on.\<close>

definition initial_state :: "files \<Rightarrow> state" where
  "initial_state fs =
     \<lparr>downloadedDependencies = {}, files = fs, processed = [], fetches = [], crashed = False\<rparr>"

definition main :: "files \<Rightarrow> string dependency list \<Rightarrow> state \<times> task" where
  "main fs dependencies = next_chunk (initial_state fs) (chunks dependencies)"

inductive reachable :: "env \<Rightarrow> files \<Rightarrow> string dependency list \<Rightarrow> state \<times> task \<Rightarrow> bool"
  for e :: env and fs :: files and dependencies :: "string dependency list" where
  Start: "reachable e fs dependencies (main fs dependencies)"
| Next: "reachable e fs dependencies c \<Longrightarrow> run_step e c c' \<Longrightarrow> reachable e fs dependencies c'"

text \<open>The keys of the calls in a task that are suspended at \<open>await mkdirp\<close>.\<close>

fun pending :: "task \<Rightarrow> string list" where
  "pending (AwaitMkdirp d) = [key_of d]"
| "pending (AwaitChunk ts cs) = concat (map pending ts)"
| "pending _ = []"

text \<open>
  What a step may do to the records: keys \<open>new\<close> are added to the set, none of
  them in it before, and each key that leaves \<open>pending\<close> enters \<open>fetches\<close>.
\<close>

definition effect :: "state \<Rightarrow> task \<Rightarrow> state \<Rightarrow> task \<Rightarrow> bool" where
  "effect s t s' t' =
     (\<exists>new fnew.
        processed s' = processed s @ new
        \<and> downloadedDependencies s' = downloadedDependencies s \<union> set new
        \<and> distinct new \<and> set new \<inter> downloadedDependencies s = {}
        \<and> fetches s' = fetches s @ fnew
        \<and> (\<forall>(k, ts) \<in> set fnew. length ts \<le> 2)
        \<and> mset (map fst fnew) + mset (pending t') = mset (pending t) + mset new)"

text \<open>
  The invariant of the walk: the keys were added one by one, and each added key is
  either still suspended at \<open>await mkdirp\<close> or has started its fetches, once.
\<close>

definition once :: "state \<times> task \<Rightarrow> bool" where
  "once c = (distinct (processed (fst c))
     \<and> set (processed (fst c)) = downloadedDependencies (fst c)
     \<and> mset (map fst (fetches (fst c))) + mset (pending (snd c)) = mset (processed (fst c))
     \<and> (\<forall>(k, ts) \<in> set (fetches (fst c)). length ts \<le> 2))"


section \<open>Progress of the walk\<close>

text \<open>The dependencies that a task holds: those of its calls and of its chunks.\<close>

fun deps_in :: "task \<Rightarrow> string dependency set" where
  "deps_in (AwaitMkdirp d) = {d}"
| "deps_in (AwaitDownloads d ts) = {d}"
| "deps_in (AwaitParse None) = {}"
| "deps_in (AwaitParse (Some ds)) = set ds"
| "deps_in (AwaitChunk ts cs) = \<Union> (set (map deps_in ts)) \<union> \<Union> (set (map set cs))"
| "deps_in Hung = {}"
| "deps_in Done = {}"

text \<open>
  Three quantities order the states of a walk over the dependencies \<open>U\<close>: the
  keys of \<open>U\<close> not yet in the set, the awaits left before the descriptors of the
  suspended calls are read, and the iterations left in the loops over chunks.
\<close>

definition unvisited :: "string dependency set \<Rightarrow> state \<Rightarrow> nat" where
  "unvisited U s = card (key_of ` U - downloadedDependencies s)"

fun awaits :: "task \<Rightarrow> nat" where
  "awaits (AwaitMkdirp d) = 2"
| "awaits (AwaitDownloads d ts) = 1"
| "awaits (AwaitChunk ts cs) = sum_list (map awaits ts)"
| "awaits _ = 0"

fun iterations :: "task \<Rightarrow> nat" where
  "iterations (AwaitParse None) = 1"
| "iterations (AwaitParse (Some ds)) = 2 + length (chunks ds)"
| "iterations (AwaitChunk ts cs) = 1 + sum_list (map iterations ts) + length cs"
| "iterations _ = 0"

definition progress :: "string dependency set \<Rightarrow> state \<times> task \<Rightarrow> nat \<times> nat \<times> nat" where
  "progress U c = (unvisited U (fst c), awaits (snd c), iterations (snd c))"

text \<open>The lexicographic order on the three quantities.\<close>

definition lex3 :: "nat \<times> nat \<times> nat \<Rightarrow> nat \<times> nat \<times> nat \<Rightarrow> bool" where
  "lex3 p q = (fst p < fst q \<or> fst p = fst q \<and> (fst (snd p) < fst (snd q)
      \<or> fst (snd p) = fst (snd q) \<and> snd (snd p) < snd (snd q)))"

text \<open>Every descriptor names dependencies of \<open>U\<close> only.\<close>

definition closed_under :: "env \<Rightarrow> string dependency set \<Rightarrow> bool" where
  "closed_under e U = (\<forall>content ds. descriptor e content = Some ds \<longrightarrow> set ds \<subseteq> U)"

section \<open>A two-node cycle\<close>

text \<open>
  \<open>A\<close> depends on \<open>B\<close> and \<open>B\<close> on \<open>A\<close>. The server has both
  artifacts and both descriptors; paths are joined with a slash.
\<close>

definition A :: "string dependency" where
  "A = \<lparr>groupId = ''g'', artifactId = ''a'', version = ''1''\<rparr>"

definition B :: "string dependency" where
  "B = \<lparr>groupId = ''g'', artifactId = ''b'', version = ''1''\<rparr>"

definition cycle_server :: server where
  "cycle_server url opts =
     (if url = ''https://repo1.maven.org/maven2/g/a/1/a-1.pom'' then Response 200 None ''pom-a'' True
      else if url = ''https://repo1.maven.org/maven2/g/b/1/b-1.pom'' then Response 200 None ''pom-b'' True
      else if url = ''https://repo1.maven.org/maven2/g/a/1/a-1.jar'' then Response 200 None ''jar-a'' True
      else if url = ''https://repo1.maven.org/maven2/g/b/1/b-1.jar'' then Response 200 None ''jar-b'' True
      else Response 404 None [] True)"

definition cycle_descriptor :: "string \<Rightarrow> string dependency list option" where
  "cycle_descriptor content =
     (if content = ''pom-a'' then Some [B] else if content = ''pom-b'' then Some [A] else None)"

definition cycle_env :: env where
  "cycle_env =
     \<lparr>path_join = (\<lambda>p q. p @ ''/'' @ q), server = cycle_server, proxy = PROXY_CONFIG,
      repositoryPath = ''repository'', descriptor = cycle_descriptor\<rparr>"

text \<open>
  The states that the walk from the one root \<open>A\<close> passes through, with no files to
  begin with.
\<close>

definition tasks_A :: "(string \<times> string) list" where
  "tasks_A = [(''https://repo1.maven.org/maven2/g/a/1/a-1.jar'', ''repository/g/a/1/a-1.jar''),
              (''https://repo1.maven.org/maven2/g/a/1/a-1.pom'', ''repository/g/a/1/a-1.pom'')]"

definition tasks_B :: "(string \<times> string) list" where
  "tasks_B = [(''https://repo1.maven.org/maven2/g/b/1/b-1.jar'', ''repository/g/b/1/b-1.jar''),
              (''https://repo1.maven.org/maven2/g/b/1/b-1.pom'', ''repository/g/b/1/b-1.pom'')]"

definition files_A :: files where
  "files_A = [''repository/g/a/1/a-1.jar'' \<mapsto> ''jar-a'', ''repository/g/a/1/a-1.pom'' \<mapsto> ''pom-a'']"

definition files_AB :: files where
  "files_AB = files_A(''repository/g/b/1/b-1.jar'' \<mapsto> ''jar-b'', ''repository/g/b/1/b-1.pom'' \<mapsto> ''pom-b'')"

definition cycle_state ::
  "string list \<Rightarrow> files \<Rightarrow> (string \<times> (string \<times> string) list) list \<Rightarrow> state" where
  "cycle_state ks fs fe =
     \<lparr>downloadedDependencies = set ks, files = fs, processed = ks, fetches = fe, crashed = False\<rparr>"

definition cycle_end :: state where
  "cycle_end = cycle_state [''g:a:1'', ''g:b:1''] files_AB [(''g:a:1'', tasks_A), (''g:b:1'', tasks_B)]"

definition cycle_run :: "(state \<times> task) list" where
  "cycle_run =
     [(cycle_state [''g:a:1''] Map.empty [], AwaitChunk [AwaitMkdirp A] []),
      (cycle_state [''g:a:1''] Map.empty [(''g:a:1'', tasks_A)],
         AwaitChunk [AwaitDownloads A tasks_A] []),
      (cycle_state [''g:a:1''] files_A [(''g:a:1'', tasks_A)],
         AwaitChunk [AwaitParse (Some [B])] []),
      (cycle_state [''g:a:1'', ''g:b:1''] files_A [(''g:a:1'', tasks_A)],
         AwaitChunk [AwaitChunk [AwaitMkdirp B] []] []),
      (cycle_state [''g:a:1'', ''g:b:1''] files_A [(''g:a:1'', tasks_A), (''g:b:1'', tasks_B)],
         AwaitChunk [AwaitChunk [AwaitDownloads B tasks_B] []] []),
      (cycle_end, AwaitChunk [AwaitChunk [AwaitParse (Some [A])] []] []),
      (cycle_end, AwaitChunk [AwaitChunk [AwaitChunk [Done] []] []] []),
      (cycle_end, AwaitChunk [AwaitChunk [Done] []] []),
      (cycle_end, AwaitChunk [Done] []),
      (cycle_end, Done)]"

text \<open>A state from which no step is possible.\<close>

definition final :: "env \<Rightarrow> state \<times> task \<Rightarrow> bool" where
  "final e c = (\<forall>c'. \<not> run_step e c c')"

section \<open>Files that are already there\<close>

text \<open>
  A file that, in the words of the specification, already exists on disk and is
  non-empty.
\<close>

definition present_nonempty :: "files \<Rightarrow> string \<Rightarrow> bool" where
  "present_nonempty fs p = (case fs p of None \<Rightarrow> False | Some content \<Rightarrow> content \<noteq> [])"

text \<open>Some call in the task is waiting for its downloads.\<close>

fun fetching :: "task \<Rightarrow> bool" where
  "fetching (AwaitDownloads d ts) = True"
| "fetching (AwaitChunk ts cs) = list_ex fetching ts"
| "fetching _ = False"

text \<open>
  A state of a walk over the dependencies \<open>U\<close> that has left the files \<open>fs\<close> as
  they were and has started no fetch.
\<close>

definition quiet :: "string dependency set \<Rightarrow> files \<Rightarrow> state \<times> task \<Rightarrow> bool" where
  "quiet U fs c =
     (files (fst c) = fs \<and> list_all (\<lambda>(k, ts). ts = []) (fetches (fst c))
      \<and> deps_in (snd c) \<subseteq> U \<and> \<not> fetching (snd c))"

section \<open>Lemmas on strings and values\<close>

lemma trim_bracketed: "trim (CHR ''['' # m @ '',)'') = CHR ''['' # m @ '',)''"
  by (simp add: trim_def is_space_def)

lemma slice_bracketed: "slice (CHR ''['' # m @ '',)'') 1 (- 2) = m"
  by (simp add: slice_def slice_index_def)

lemma parse_min_range: "parseVersionRange (CHR ''['' # m @ '',)'') = MinRange m True None False"
  by (simp add: parseVersionRange_def trim_bracketed slice_bracketed startsWith_def endsWith_def)

text \<open>The predicate \<open>min_range_shape\<close> is the shape \<open>[min,)\<close> for some \<open>min\<close>.\<close>

lemma min_range_shape_iff: "min_range_shape v \<longleftrightarrow> (\<exists>m. v = ''['' @ m @ '',)'')"
proof
  assume h: "min_range_shape v"
  from h have "drop (length v - length '',)'') v = '',)''"
    unfolding min_range_shape_def endsWith_def by blast
  then have "v = take (length v - length '',)'') v @ '',)''"
    by (metis append_take_drop_id)
  then obtain p where p: "v = p @ '',)''" ..
  from h have "take 1 v = ''[''" by (simp add: min_range_shape_def startsWith_def)
  with p obtain m where "p = CHR ''['' # m" by (cases p) auto
  with p show "\<exists>m. v = ''['' @ m @ '',)''" by auto
next
  assume "\<exists>m. v = ''['' @ m @ '',)''"
  thus "min_range_shape v" by (auto simp: min_range_shape_def startsWith_def endsWith_def)
qed

lemma get_prop_truthy: "truthy x \<Longrightarrow> get_prop x k = Inr (field x k)"
  by (cases x) (auto simp: field_def split: option.splits)

lemma get_prop_defined: "x \<noteq> JUndefined \<Longrightarrow> x \<noteq> JNull \<Longrightarrow> get_prop x k = Inr (field x k)"
  by (cases x) (auto simp: field_def split: option.splits)

section \<open>Version expressions\<close>

text \<open>An open-ended range \<open>[min,)\<close> with a non-empty \<open>min\<close> resolves to \<open>min\<close>.\<close>

lemma resolveVersion_min_range:
  "m \<noteq> [] \<Longrightarrow> resolveVersion (JStr (''['' @ m @ '',)'')) properties = Inr (JStr m)"
  by (simp add: resolveVersion_def startsWith_def resolve_range_def is_range_syntax_def
      includes_chr_def parse_min_range)

lemma resolveVersion_open_range_example:
  "resolveVersion (JStr ''[1.0,)'') properties = Inr (JStr ''1.0'')"
  using resolveVersion_min_range [of "''1.0''" properties] by simp

text \<open>
  C7. An expression \<open>[min,)\<close> is to resolve to \<open>min\<close>, and every other
  combination of brackets and parentheses to the original string. The bounded range
  \<open>[1.0,2.0)\<close> is not of the shape \<open>[min,)\<close>, yet \<open>parseVersionRange\<close> takes it
  for one, since it only looks at the first and the last character, and
  \<open>resolveVersion\<close> returns \<open>1.0,2.\<close>, which is neither the original string nor
  a version.
\<close>

theorem resolveVersion_bounded_range_truncated:
  "resolveVersion (JStr ''[1.0,2.0)'') properties = Inr (JStr ''1.0,2.'')
   \<and> \<not> min_range_shape ''[1.0,2.0)''"
  by (simp add: resolveVersion_def startsWith_def resolve_range_def is_range_syntax_def
      includes_chr_def parseVersionRange_def trim_def is_space_def endsWith_def slice_def
      slice_index_def min_range_shape_def)

section \<open>Property references\<close>

lemma walk_parts_total: "truthy current \<Longrightarrow> \<exists>r. walk_parts current parts = Inr r"
  by (induction parts arbitrary: current) (auto simp: bind_err_def get_prop_truthy)

text \<open>Resolving a string never throws, whatever the property table is.\<close>

lemma resolveVersion_string_total: "\<exists>r. resolveVersion (JStr v) properties = Inr r"
  using walk_parts_total [of properties]
  by (auto simp: resolveVersion_def bind_err_def get_prop_truthy Let_def)

lemma resolveVersion_direct_example:
  "resolveVersion (JStr ''${foo.bar}'') (JObj [(''foo.bar'', JArr [JStr ''1.2.3''])])
   = Inr (JStr ''1.2.3'')"
  by code_simp

lemma resolveVersion_unknown_example:
  "resolveVersion (JStr ''${foo.baz}'') (JObj [(''foo.bar'', JArr [JStr ''1.2.3''])])
   = Inr JNull"
  by code_simp

text \<open>
  A name that the property table only inherits, such as \<open>constructor\<close>, passes
  the direct lookup; index \<open>0\<close> of what is found there is \<open>undefined\<close>.
\<close>

lemma resolveVersion_inherited_example:
  "resolveVersion (JStr ''${constructor}'') (JObj []) = Inr JUndefined"
  by code_simp

text \<open>
  C6. A reference \<open>${name}\<close> is looked up directly, then part by part, and is to
  resolve to \<open>null\<close> when a part is missing. With the one property
  \<open><a>xyz</a>\<close> and the reference \<open>${a.0}\<close> the direct lookup of \<open>a.0\<close>
  fails, the walk reaches the string \<open>xyz\<close> under \<open>a\<close>, and the part \<open>0\<close>,
  which no property table holds, reads the first character of that string: the
  reference resolves to \<open>x\<close> and the declaration is kept with that version.
\<close>

theorem resolveVersion_indexes_into_value:
  "resolveVersion (JStr ''${a.0}'') (JObj [(''a'', JArr [JStr ''xyz''])]) = Inr (JStr ''x'')
   \<and> get_prop (JObj [(''a'', JArr [JStr ''xyz''])]) ''a.0'' = Inr JUndefined
   \<and> bind_err (resolve_declaration (JObj [(''a'', JArr [JStr ''xyz''])])
        (JObj [(''groupId'', JArr [JStr ''g'']), (''artifactId'', JArr [JStr ''b'']),
               (''version'', JArr [JStr ''${a.0}''])])) collect_dep
      = Inr (Some \<lparr>groupId = JStr ''g'', artifactId = JStr ''b'', version = JStr ''x''\<rparr>)"
  by code_simp

section \<open>Dependencies of a descriptor\<close>

lemma collect_dep_eq:
  assumes "dep \<noteq> JUndefined" "dep \<noteq> JNull"
  shows "collect_dep dep = Inr (if complete_declaration dep then Some (coordinate_of dep) else None)"
  using assms
  by (simp add: collect_dep_def bind_err_def get_prop_defined get_prop_truthy
      complete_declaration_def coordinate_of_def)

lemma collect_deps_eq:
  "\<forall>dep \<in> set ds. dep \<noteq> JUndefined \<and> dep \<noteq> JNull \<Longrightarrow>
   collect_deps ds = Inr (map coordinate_of (filter complete_declaration ds))"
  by (induction ds) (simp_all add: bind_err_def collect_dep_eq)

text \<open>A declaration whose version did not resolve is dropped.\<close>

lemma unresolved_declaration_dropped:
  "bind_err (resolve_declaration (JObj [(''foo.bar'', JArr [JStr ''1.2.3''])])
     (JObj [(''groupId'', JArr [JStr ''g'']), (''artifactId'', JArr [JStr ''b'']),
            (''version'', JArr [JStr ''${foo.baz}''])])) collect_dep = Inr None"
  by code_simp

text \<open>
  C9. For a descriptor with a dependency block, \<open>getDependencies\<close> does not throw
  and returns exactly the declarations that have a group, an artifact and a resolved
  version, in their order: a declaration that misses one of them, or whose version
  resolved to \<open>null\<close>, is left out. The declarations are whatever the array holds
  other than \<open>undefined\<close> and \<open>null\<close>; \<open>parsePomXml\<close> builds each of them as an
  object literal.
\<close>

theorem getDependencies_keeps_complete_declarations:
  assumes "map_of root ''project'' = Some (JObj ps)"
    and "map_of ps ''dependencies'' = Some (JArr (JObj dd # rest))"
    and "map_of dd ''dependency'' = Some (JArr ds)"
    and "\<forall>dep \<in> set ds. dep \<noteq> JUndefined \<and> dep \<noteq> JNull"
  shows "getDependencies (JObj root) = Inr (map coordinate_of (filter complete_declaration ds))"
  using assms(1-3) collect_deps_eq [OF assms(4)]
  by (simp add: getDependencies_def bind_err_def array_index_def)

theorem getDependencies_keeps_complete_declarations_witness:
  "getDependencies (JObj [(''project'', JObj [(''dependencies'', JArr [JObj [(''dependency'',
     JArr [JObj [(''groupId'', JArr [JStr ''g'']), (''artifactId'', JArr [JStr ''a'']),
                 (''version'', JArr [JStr ''1.0''])],
           JObj [(''groupId'', JArr [JStr ''g'']), (''artifactId'', JArr [JStr ''b'']),
                 (''version'', JArr [JNull])],
           JObj [(''groupId'', JArr [JStr ''g'']), (''version'', JArr [JStr ''2.0''])]])]])])])
   = Inr [\<lparr>groupId = JStr ''g'', artifactId = JStr ''a'', version = JStr ''1.0''\<rparr>]"
proof -
  let ?ds = "[JObj [(''groupId'', JArr [JStr ''g'']), (''artifactId'', JArr [JStr ''a'']),
                 (''version'', JArr [JStr ''1.0''])],
           JObj [(''groupId'', JArr [JStr ''g'']), (''artifactId'', JArr [JStr ''b'']),
                 (''version'', JArr [JNull])],
           JObj [(''groupId'', JArr [JStr ''g'']), (''version'', JArr [JStr ''2.0''])]]"
  let ?dd = "[(''dependency'', JArr ?ds)]"
  let ?ps = "[(''dependencies'', JArr [JObj ?dd])]"
  let ?root = "[(''project'', JObj ?ps)]"
  have h1: "map_of ?root ''project'' = Some (JObj ?ps)" by simp
  have h2: "map_of ?ps ''dependencies'' = Some (JArr (JObj ?dd # []))" by simp
  have h3: "map_of ?dd ''dependency'' = Some (JArr ?ds)" by simp
  have h4: "\<forall>dep \<in> set ?ds. dep \<noteq> JUndefined \<and> dep \<noteq> JNull" by simp
  have f: "map coordinate_of (filter complete_declaration ?ds)
      = [\<lparr>groupId = JStr ''g'', artifactId = JStr ''a'', version = JStr ''1.0''\<rparr>]"
    by code_simp
  show ?thesis
    using getDependencies_keeps_complete_declarations [OF h1 h2 h3 h4] f by simp
qed

section \<open>Names of a coordinate with range syntax\<close>

text \<open>
  A version that \<open>parseVersionRange\<close> does not take for a range gets the version
  \<open>undefined\<close>, and the path, both file names and both addresses carry that word.
\<close>

lemma unparsed_range_names_undefined:
  assumes "includes_chr v CHR ''['' \<or> includes_chr v CHR ''(''"
    and "\<not> (startsWith (trim v) ''['' \<and> endsWith (trim v) '')'')"
  shows "actualVersion v = None
    \<and> artifactPath g a v = replace_dots g @ ''/'' @ a @ ''/undefined''
    \<and> jarName a v = a @ ''-undefined.jar''
    \<and> pomName a v = a @ ''-undefined.pom''
    \<and> sublist ''undefined'' (jarUrl g a v)
    \<and> sublist ''undefined'' (pomUrl g a v)"
proof -
  have av: "actualVersion v = None" using assms
    by (auto simp: actualVersion_def parseVersionRange_def Let_def)
  have j: "jarName a v = a @ ''-undefined.jar''" by (simp add: jarName_def av)
  have p: "pomName a v = a @ ''-undefined.pom''" by (simp add: pomName_def av)
  have "jarUrl g a v =
      (MAVEN_CENTRAL_URL @ ''/'' @ artifactPath g a v @ ''/'' @ a @ ''-'') @ ''undefined'' @ ''.jar''"
    by (simp add: jarUrl_def j)
  then have ju: "sublist ''undefined'' (jarUrl g a v)" by (metis sublist_appendI)
  have "pomUrl g a v =
      (MAVEN_CENTRAL_URL @ ''/'' @ artifactPath g a v @ ''/'' @ a @ ''-'') @ ''undefined'' @ ''.pom''"
    by (simp add: pomUrl_def p)
  then have pu: "sublist ''undefined'' (pomUrl g a v)" by (metis sublist_appendI)
  show ?thesis using av j p ju pu by (simp add: artifactPath_def)
qed

lemma unparsed_range_examples:
  "jarName ''artifact'' ''[1.0]'' = ''artifact-undefined.jar''"
  "jarName ''artifact'' ''(1.0,2.0)'' = ''artifact-undefined.jar''"
  "artifactPath ''org.x'' ''artifact'' ''[1.0]'' = ''org/x/artifact/undefined''"
  by code_simp+

text \<open>
  C10. A version with a bracket or parenthesis that is not of the shape \<open>[min,)\<close>
  is to get the version \<open>undefined\<close>, so that the names carry that word. The
  bounded range \<open>[1.0,2.0)\<close> is not of that shape, yet \<open>parseVersionRange\<close>
  takes it for an open-ended range, as it does in \<open>resolveVersion\<close>: the effective
  version is \<open>1.0,2.\<close> and no name carries \<open>undefined\<close>.
\<close>

theorem bounded_range_version_not_undefined:
  "includes_chr ''[1.0,2.0)'' CHR ''['' \<and> \<not> min_range_shape ''[1.0,2.0)''
   \<and> actualVersion ''[1.0,2.0)'' = Some ''1.0,2.''
   \<and> jarName ''artifact'' ''[1.0,2.0)'' = ''artifact-1.0,2..jar''
   \<and> \<not> sublist ''undefined'' (jarUrl ''g'' ''artifact'' ''[1.0,2.0)'')"
  by code_simp

section \<open>Fetching one file\<close>

text \<open>The cases of \<open>downloadFile\<close>, by the answer to the first request.\<close>

lemma terminal_response_rejected:
  "status \<noteq> 200 \<Longrightarrow> \<exists>e. terminal_response dest status content whole open_stream
      = (Rejected e, [Close, Unlink dest])"
  by (simp add: terminal_response_def)

lemma terminal_response_cases:
  "terminal_response dest status content whole open_stream = (out, evs) \<Longrightarrow>
     (status \<noteq> 200 \<and> evs = [Close, Unlink dest] \<and> (\<exists>e. out = Rejected e))
     \<or> (status = 200 \<and> evs = [Pipe content] \<and> (\<forall>e. out \<noteq> Rejected e))"
  by (auto simp: terminal_response_def split: if_splits)

lemma files_after_unlink_last:
  "files_after dest fs (evs @ [Unlink dest]) dest = None"
  by (simp add: files_after_def split: prod.splits)
    (metis apply_event.simps(4) fst_conv fun_upd_same prod.collapse)

lemma downloadFile_error:
  "net url (request_options cfg) = RequestError err \<Longrightarrow>
   downloadFile cfg net url dest
     = (Rejected (Transport err), [CreateWriteStream dest, Get url (request_options cfg), Unlink dest])"
  by (simp add: downloadFile_def)

lemma downloadFile_idle:
  "net url (request_options cfg) = Idle \<Longrightarrow>
   downloadFile cfg net url dest = (Unsettled, [CreateWriteStream dest, Get url (request_options cfg)])"
  by (simp add: downloadFile_def)

lemma downloadFile_terminal:
  assumes "net url (request_options cfg) = Response status loc content whole"
    and "status \<noteq> 301" "status \<noteq> 302"
  shows "downloadFile cfg net url dest
     = (fst (terminal_response dest status content whole True),
        [CreateWriteStream dest, Get url (request_options cfg)]
          @ snd (terminal_response dest status content whole True))"
  using assms by (simp add: downloadFile_def Let_def split: prod.splits)

lemma downloadFile_redirect:
  assumes "net url (request_options cfg) = Response status (Some redirectUrl) content whole"
    and "status = 301 \<or> status = 302"
  shows "downloadFile cfg net url dest
     = (case net redirectUrl (request_options cfg) of
          RequestError err \<Rightarrow>
            (Rejected (Transport err),
             [CreateWriteStream dest, Get url (request_options cfg), Close, Unlink dest,
              Get redirectUrl (request_options cfg), Unlink dest])
        | Idle \<Rightarrow>
            (Unsettled,
             [CreateWriteStream dest, Get url (request_options cfg), Close, Unlink dest,
              Get redirectUrl (request_options cfg)])
        | Response status2 loc2 content2 whole2 \<Rightarrow>
            (fst (terminal_response dest status2 content2 whole2 False),
             [CreateWriteStream dest, Get url (request_options cfg), Close, Unlink dest,
              Get redirectUrl (request_options cfg)]
               @ snd (terminal_response dest status2 content2 whole2 False)))"
  using assms by (auto simp: downloadFile_def Let_def split: prod.splits reply.splits)

lemma downloadFile_bare_redirect:
  assumes "net url (request_options cfg) = Response status None content whole"
    and "status = 301 \<or> status = 302"
  shows "downloadFile cfg net url dest
     = (case net default_url default_options of
          RequestError err \<Rightarrow>
            (Rejected (Transport err),
             [CreateWriteStream dest, Get url (request_options cfg), Close, Unlink dest,
              Get default_url default_options, Unlink dest])
        | _ \<Rightarrow>
            (Unsettled,
             [CreateWriteStream dest, Get url (request_options cfg), Close, Unlink dest,
              Get default_url default_options]))"
  using assms by (auto simp: downloadFile_def Let_def split: reply.splits)

lemma files_after_terminal_closed:
  "files_after dest fs
     (CreateWriteStream dest # Get url opts # Close # Unlink dest # Get url2 opts2
        # snd (terminal_response dest status content whole False)) dest = None"
  by (simp add: terminal_response_def files_after_def)

lemma files_after_terminal_open:
  "status \<noteq> 200 \<Longrightarrow>
   files_after dest fs
     (CreateWriteStream dest # Get url opts # snd (terminal_response dest status content whole True))
     dest = None"
  by (simp add: terminal_response_def files_after_def)

lemma terminal_response_200: "\<forall>e. fst (terminal_response dest 200 content whole b) \<noteq> Rejected e"
  by (simp add: terminal_response_def)

text \<open>
  Whenever the promise is rejected, and whenever the first response has a status
  other than 200 (a 404, any other status, a redirect whatever follows it), no file
  is left at the destination path, whatever was there before.
\<close>

lemma downloadFile_rejected_leaves_no_file:
  assumes "downloadFile cfg net url dest = (out, evs)"
    and "(\<exists>e. out = Rejected e)
         \<or> (\<exists>status loc content whole.
               net url (request_options cfg) = Response status loc content whole \<and> status \<noteq> 200)"
  shows "files_after dest fs evs dest = None"
proof (cases "net url (request_options cfg)")
  case (RequestError err)
  from downloadFile_error [where net = net and url = url and cfg = cfg and dest = dest, OF this] assms(1) show ?thesis
    by (auto simp: files_after_def)
next
  case Idle
  from downloadFile_idle [where net = net and url = url and cfg = cfg and dest = dest, OF this] assms(1)
  have "out = Unsettled" by simp
  with assms(2) Idle show ?thesis by simp
next
  case (Response status loc content whole)
  show ?thesis
  proof (cases "status = 301 \<or> status = 302")
    case True
    show ?thesis
    proof (cases loc)
      case None
      from downloadFile_bare_redirect [where net = net and url = url and cfg = cfg and dest = dest, OF Response [unfolded None] True] assms(1)
      show ?thesis by (auto simp: files_after_def split: reply.splits)
    next
      case (Some redirectUrl)
      note eq = downloadFile_redirect [where net = net and url = url and cfg = cfg and dest = dest, OF Response [unfolded Some] True]
      show ?thesis
      proof (cases "net redirectUrl (request_options cfg)")
        case (Response status2 loc2 content2 whole2)
        with eq assms(1) have "evs = CreateWriteStream dest # Get url (request_options cfg) # Close
            # Unlink dest # Get redirectUrl (request_options cfg)
            # snd (terminal_response dest status2 content2 whole2 False)" by simp
        then show ?thesis by (simp only: files_after_terminal_closed)
      next
        case (RequestError err)
        with eq assms(1) show ?thesis by (auto simp: files_after_def)
      next
        case Idle
        with eq assms(1) show ?thesis by (auto simp: files_after_def)
      qed
    qed
  next
    case False
    then have ne: "status \<noteq> 301" "status \<noteq> 302" by auto
    note eq = downloadFile_terminal [where net = net and url = url and cfg = cfg and dest = dest, OF Response ne]
    show ?thesis
    proof (cases "status = 200")
      case True
      with eq assms(1) terminal_response_200 [of dest content whole True]
      have "\<forall>e. out \<noteq> Rejected e" by auto
      with assms(2) Response True show ?thesis by auto
    next
      case False
      from eq assms(1) have "evs = CreateWriteStream dest # Get url (request_options cfg)
          # snd (terminal_response dest status content whole True)" by simp
      then show ?thesis by (simp only: files_after_terminal_open [OF False])
    qed
  qed
qed


text \<open>A 200 whose body arrives to its end resolves and leaves the body in the file.\<close>

lemma downloadFile_success:
  assumes "net url (request_options cfg) = Response 200 loc content True"
  shows "downloadFile cfg net url dest
           = (Resolved, [CreateWriteStream dest, Get url (request_options cfg), Pipe content])"
    and "files_after dest fs [CreateWriteStream dest, Get url (request_options cfg), Pipe content] dest
           = Some content"
  using assms by (simp_all add: downloadFile_def terminal_response_def files_after_def)

text \<open>
  C2. On every exit other than a 200 whose body stream completed, the destination is
  to be left without a file. When the first response is a 200 and the connection
  breaks before the body has arrived to its end, nothing in \<open>downloadFile\<close> hears
  of it: the stream is neither closed nor unlinked, the promise is never settled, and
  the part of the body that did arrive stays at the destination path.
\<close>

theorem downloadFile_broken_body_leaves_file:
  "downloadFile cfg broken_body_server url dest
     = (Unsettled, [CreateWriteStream dest, Get url (request_options cfg), Pipe ''part''])
   \<and> files_after dest fs (snd (downloadFile cfg broken_body_server url dest)) dest = Some ''part''"
  by (simp add: downloadFile_def broken_body_server_def terminal_response_def files_after_def)


lemma requests_terminal: "requests (snd (terminal_response dest status content whole b)) = []"
  by (simp add: terminal_response_def)

text \<open>
  When the first response is a 301 or 302 with a \<open>Location\<close>, the stream is closed
  and the destination file unlinked, then one follow-up request goes to the
  \<open>Location\<close> with the same options, whatever the answer to it is, and no other
  request is made; after it the destination path is without a file.
\<close>

lemma downloadFile_redirect_follow_up:
  assumes "net url (request_options cfg) = Response s1 (Some redirectUrl) c1 w1"
    and "s1 = 301 \<or> s1 = 302"
  shows "\<exists>evs. snd (downloadFile cfg net url dest)
            = [CreateWriteStream dest, Get url (request_options cfg), Close, Unlink dest,
               Get redirectUrl (request_options cfg)] @ evs
          \<and> requests evs = []"
    and "files_after dest fs (snd (downloadFile cfg net url dest)) dest = None"
proof -
  note eq = downloadFile_redirect [where net = net and url = url and cfg = cfg and dest = dest, OF assms]
  show "\<exists>evs. snd (downloadFile cfg net url dest)
            = [CreateWriteStream dest, Get url (request_options cfg), Close, Unlink dest,
               Get redirectUrl (request_options cfg)] @ evs
          \<and> requests evs = []"
    using eq by (cases "net redirectUrl (request_options cfg)") (simp_all add: requests_terminal)
  have "\<exists>status loc content whole.
          net url (request_options cfg) = Response status loc content whole \<and> status \<noteq> 200"
    using assms by auto
  then show "files_after dest fs (snd (downloadFile cfg net url dest)) dest = None"
    using downloadFile_rejected_leaves_no_file [of cfg net url dest
        "fst (downloadFile cfg net url dest)" "snd (downloadFile cfg net url dest)" fs]
    by simp
qed

text \<open>No call issues more than two requests.\<close>

lemma downloadFile_at_most_two_requests:
  "length (requests (snd (downloadFile cfg net url dest))) \<le> 2"
proof (cases "net url (request_options cfg)")
  case (RequestError err)
  from downloadFile_error [where net = net and url = url and cfg = cfg and dest = dest, OF this]
  show ?thesis by simp
next
  case Idle
  from downloadFile_idle [where net = net and url = url and cfg = cfg and dest = dest, OF this]
  show ?thesis by simp
next
  case (Response status loc content whole)
  show ?thesis
  proof (cases "status = 301 \<or> status = 302")
    case True
    show ?thesis
    proof (cases loc)
      case None
      from downloadFile_bare_redirect [where net = net and url = url and cfg = cfg and dest = dest,
          OF Response [unfolded None] True]
      show ?thesis by (cases "net default_url default_options") simp_all
    next
      case (Some redirectUrl)
      from downloadFile_redirect_follow_up(1) [where net = net and url = url and cfg = cfg
          and dest = dest, OF Response [unfolded Some] True]
      show ?thesis by auto
    qed
  next
    case False
    then have ne: "status \<noteq> 301" "status \<noteq> 302" by auto
    from downloadFile_terminal [where net = net and url = url and cfg = cfg and dest = dest,
        OF Response ne]
    show ?thesis by (simp add: requests_terminal)
  qed
qed

text \<open>When the answer to the follow-up is again a 301 or 302, the fetch is rejected.\<close>

lemma downloadFile_second_redirect_fails:
  assumes "net url (request_options cfg) = Response s1 (Some redirectUrl) c1 w1"
    and "s1 = 301 \<or> s1 = 302"
    and "net redirectUrl (request_options cfg) = Response s2 l2 c2 w2"
    and "s2 = 301 \<or> s2 = 302"
  shows "downloadFile cfg net url dest
           = (Rejected (HttpStatus s2),
              [CreateWriteStream dest, Get url (request_options cfg), Close, Unlink dest,
               Get redirectUrl (request_options cfg), Close, Unlink dest])"
  using downloadFile_redirect [where net = net and url = url and cfg = cfg and dest = dest,
      OF assms(1,2)] assms(3,4)
  by (auto simp: terminal_response_def)

text \<open>
  C8. After a first response 301 or 302 the one follow-up request is to go to the
  \<open>Location\<close> target with the same headers and proxy. When the response is a 301
  without a \<open>Location\<close> header, \<open>redirectUrl\<close> is \<open>undefined\<close> and
  \<open>https.get\<close> sends the follow-up to the default target, without the headers,
  the timeout and the proxy agent of the first request. Here that target refuses the
  connection and the fetch is rejected with that error.
\<close>

theorem downloadFile_redirect_without_location:
  "downloadFile PROXY_CONFIG bare_redirect_server ''u'' ''d''
     = (Rejected (Transport ''ECONNREFUSED''),
        [CreateWriteStream ''d'', Get ''u'' (request_options PROXY_CONFIG), Close, Unlink ''d'',
         Get default_url default_options, Unlink ''d''])
   \<and> default_options \<noteq> request_options PROXY_CONFIG"
proof
  have 1: "bare_redirect_server ''u'' (request_options PROXY_CONFIG) = Response 301 None [] True"
    by (simp add: bare_redirect_server_def default_url_def)
  have 2: "bare_redirect_server default_url default_options = RequestError ''ECONNREFUSED''"
    by (simp add: bare_redirect_server_def)
  from downloadFile_bare_redirect [where net = bare_redirect_server and url = "''u''"
      and cfg = PROXY_CONFIG and dest = "''d''", OF 1]
  show "downloadFile PROXY_CONFIG bare_redirect_server ''u'' ''d''
     = (Rejected (Transport ''ECONNREFUSED''),
        [CreateWriteStream ''d'', Get ''u'' (request_options PROXY_CONFIG), Close, Unlink ''d'',
         Get default_url default_options, Unlink ''d''])"
    by (simp add: 2)
next
  have "timeout default_options \<noteq> timeout (request_options PROXY_CONFIG)"
    by (simp add: default_options_def request_options_def)
  then show "default_options \<noteq> request_options PROXY_CONFIG" by auto
qed

section \<open>The walker visits each key once\<close>

declare chunks_from.simps [simp del]

lemma enter_effect:
  "enter s d = (s', t) \<Longrightarrow>
   \<exists>new. processed s' = processed s @ new
     \<and> downloadedDependencies s' = downloadedDependencies s \<union> set new
     \<and> distinct new \<and> set new \<inter> downloadedDependencies s = {}
     \<and> fetches s' = fetches s \<and> files s' = files s \<and> crashed s' = crashed s
     \<and> pending t = new \<and> set new \<subseteq> {key_of d}"
  by (auto simp: enter_def split: if_splits)

lemma dispatch_effect:
  "dispatch s ds = (s', ts) \<Longrightarrow>
   \<exists>new. processed s' = processed s @ new
     \<and> downloadedDependencies s' = downloadedDependencies s \<union> set new
     \<and> distinct new \<and> set new \<inter> downloadedDependencies s = {}
     \<and> fetches s' = fetches s \<and> files s' = files s \<and> crashed s' = crashed s
     \<and> concat (map pending ts) = new \<and> set new \<subseteq> key_of ` set ds"
proof (induction ds arbitrary: s s' ts)
  case Nil
  then show ?case by simp
next
  case (Cons d ds)
  obtain s1 t where e: "enter s d = (s1, t)" by (cases "enter s d")
  obtain s2 ts' where d: "dispatch s1 ds = (s2, ts')" by (cases "dispatch s1 ds")
  from Cons.prems e d have eq: "s' = s2" "ts = t # ts'" by auto
  from enter_effect [OF e] obtain n1 where n1:
    "processed s1 = processed s @ n1"
    "downloadedDependencies s1 = downloadedDependencies s \<union> set n1"
    "distinct n1" "set n1 \<inter> downloadedDependencies s = {}"
    "fetches s1 = fetches s" "files s1 = files s" "crashed s1 = crashed s"
    "pending t = n1" "set n1 \<subseteq> {key_of d}" by blast
  from Cons.IH [OF d] obtain n2 where n2:
    "processed s2 = processed s1 @ n2"
    "downloadedDependencies s2 = downloadedDependencies s1 \<union> set n2"
    "distinct n2" "set n2 \<inter> downloadedDependencies s1 = {}"
    "fetches s2 = fetches s1" "files s2 = files s1" "crashed s2 = crashed s1"
    "concat (map pending ts') = n2" "set n2 \<subseteq> key_of ` set ds" by blast
  show ?case
    apply (rule exI [of _ "n1 @ n2"])
    using n1 n2 eq by auto
qed

lemma next_chunk_effect:
  "next_chunk s cs = (s', t) \<Longrightarrow>
   \<exists>new. processed s' = processed s @ new
     \<and> downloadedDependencies s' = downloadedDependencies s \<union> set new
     \<and> distinct new \<and> set new \<inter> downloadedDependencies s = {}
     \<and> fetches s' = fetches s \<and> files s' = files s \<and> crashed s' = crashed s
     \<and> pending t = new \<and> set new \<subseteq> key_of ` (\<Union>c \<in> set cs. set c)"
proof (cases cs)
  case Nil
  assume "next_chunk s cs = (s', t)"
  with Nil show ?thesis by auto
next
  case (Cons c cs')
  assume a: "next_chunk s cs = (s', t)"
  obtain s1 ts where d: "dispatch s c = (s1, ts)" by (cases "dispatch s c")
  with a Cons have eq: "s' = s1" "t = AwaitChunk ts cs'" by auto
  from dispatch_effect [OF d] eq Cons show ?thesis by auto
qed

lemma check_pom_effect:
  "check_pom e s d = (s', t) \<Longrightarrow>
     processed s' = processed s \<and> downloadedDependencies s' = downloadedDependencies s
     \<and> fetches s' = fetches s \<and> crashed s' = crashed s \<and> pending t = []"
  by (auto simp: check_pom_def split: option.splits if_splits)

lemma downloadTasks_length: "length (downloadTasks e fs d) \<le> 2"
  by (simp add: downloadTasks_def)

lemma effect_next_chunk:
  assumes "next_chunk s cs = (s', t')" "pending t = []"
  shows "effect s t s' t'"
proof -
  from next_chunk_effect [OF assms(1)] obtain new where n:
    "processed s' = processed s @ new"
    "downloadedDependencies s' = downloadedDependencies s \<union> set new"
    "distinct new" "set new \<inter> downloadedDependencies s = {}"
    "fetches s' = fetches s" "pending t' = new" by blast
  show ?thesis unfolding effect_def
    apply (rule exI [of _ new], rule exI [of _ "[]"])
    using n assms(2) by simp
qed

lemma pending_finished: "list_all finished ts \<Longrightarrow> concat (map pending ts) = []"
proof (induction ts)
  case Nil
  then show ?case by simp
next
  case (Cons t ts)
  then show ?case by (cases t) auto
qed

lemma effect_after_mkdirp:
  assumes "after_mkdirp e s d = (s', t')"
  shows "effect s (AwaitMkdirp d) s' t'"
proof -
  let ?ts = "downloadTasks e (files s) d"
  let ?s1 = "s\<lparr>fetches := fetches s @ [(key_of d, ?ts)]\<rparr>"
  have "processed s' = processed s \<and> downloadedDependencies s' = downloadedDependencies s
     \<and> fetches s' = fetches s @ [(key_of d, ?ts)] \<and> pending t' = []"
  proof (cases "?ts = []")
    case True
    with assms have "check_pom e ?s1 d = (s', t')" by (simp add: after_mkdirp_def Let_def)
    from check_pom_effect [OF this] show ?thesis by simp
  next
    case False
    with assms show ?thesis by (auto simp: after_mkdirp_def Let_def)
  qed
  then show ?thesis unfolding effect_def
    apply -
    apply (rule exI [of _ "[]"], rule exI [of _ "[(key_of d, ?ts)]"])
    by (simp add: downloadTasks_length)
qed

lemma effect_after_downloads:
  assumes "after_downloads e s d ts = (s', t')"
  shows "effect s (AwaitDownloads d ts) s' t'"
proof -
  let ?s1 = "s\<lparr>files := write_files e (files s) ts\<rparr>"
  have "processed s' = processed s \<and> downloadedDependencies s' = downloadedDependencies s
     \<and> fetches s' = fetches s \<and> pending t' = []"
  proof (cases "Uncaught \<in> set (outcomes e ts) \<or> list_ex is_rejected (outcomes e ts)
                \<or> Unsettled \<in> set (outcomes e ts)")
    case True
    with assms show ?thesis by (auto simp: after_downloads_def Let_def split: if_splits)
  next
    case False
    with assms have "check_pom e ?s1 d = (s', t')" by (auto simp: after_downloads_def Let_def)
    from check_pom_effect [OF this] show ?thesis by simp
  qed
  then show ?thesis unfolding effect_def
    apply -
    apply (rule exI [of _ "[]"], rule exI [of _ "[]"])
    by simp
qed

lemma effect_after_parse:
  assumes "after_parse s r = (s', t')"
  shows "effect s (AwaitParse r) s' t'"
proof (cases r)
  case None
  with assms show ?thesis by (auto simp: effect_def)
next
  case (Some ds)
  with assms show ?thesis by (simp add: effect_next_chunk)
qed

lemma effect_inner:
  assumes "effect s t s' t'"
  shows "effect s (AwaitChunk (ts1 @ t # ts2) cs) s' (AwaitChunk (ts1 @ t' # ts2) cs)"
  using assms unfolding effect_def
  apply (elim exE conjE)
  subgoal for new fnew
    apply (rule exI [of _ new], rule exI [of _ fnew])
    by (simp add: ac_simps)
  done

lemma step_effect:
  "step e c c' \<Longrightarrow> effect (fst c) (snd c) (fst c') (snd c')"
proof (induction rule: step.induct)
  case (Mkdirp s d)
  then show ?case by (simp add: effect_after_mkdirp)
next
  case (Downloads s d ts)
  then show ?case by (simp add: effect_after_downloads)
next
  case (Parse s r)
  then show ?case by (simp add: effect_after_parse)
next
  case (Chunk ts s cs)
  then show ?case by (simp add: effect_next_chunk pending_finished)
next
  case (Inner s t s' t' ts1 ts2 cs)
  then show ?case by (simp add: effect_inner)
qed

lemma once_effect:
  assumes "once (s, t)" "effect s t s' t'"
  shows "once (s', t')"
proof -
  from assms(2) obtain new fnew where n:
    "processed s' = processed s @ new"
    "downloadedDependencies s' = downloadedDependencies s \<union> set new"
    "distinct new" "set new \<inter> downloadedDependencies s = {}"
    "fetches s' = fetches s @ fnew"
    "\<forall>(k, ts) \<in> set fnew. length ts \<le> 2"
    "mset (map fst fnew) + mset (pending t') = mset (pending t) + mset new"
    unfolding effect_def by blast
  from assms(1) have o: "distinct (processed s)" "set (processed s) = downloadedDependencies s"
    "mset (map fst (fetches s)) + mset (pending t) = mset (processed s)"
    "\<forall>(k, ts) \<in> set (fetches s). length ts \<le> 2"
    by (auto simp: once_def)
  have 1: "distinct (processed s')" using n o by auto
  have 2: "set (processed s') = downloadedDependencies s'" using n o by auto
  have 3: "mset (map fst (fetches s')) + mset (pending t') = mset (processed s')"
    using n(1,5,7) o(3) by (simp add: ac_simps) (metis add.assoc add.left_commute)
  have 4: "\<forall>(k, ts) \<in> set (fetches s'). length ts \<le> 2" using n(5,6) o(4) by auto
  show ?thesis using 1 2 3 4 by (simp add: once_def)
qed

lemma once_main: "once (main fs dependencies)"
proof -
  obtain s t where m: "next_chunk (initial_state fs) (chunks dependencies) = (s, t)"
    by (cases "next_chunk (initial_state fs) (chunks dependencies)")
  have "once (initial_state fs, Done)" by (simp add: once_def initial_state_def)
  from once_effect [OF this effect_next_chunk [OF m]] m show ?thesis by (simp add: main_def)
qed

lemma reachable_once: "reachable e fs dependencies c \<Longrightarrow> once c"
proof (induction rule: reachable.induct)
  case Start
  then show ?case by (rule once_main)
next
  case (Next c c')
  from Next.hyps(2) have "step e c c'" by (simp add: run_step_def)
  from step_effect [OF this] Next.IH show ?case
    by (cases c; cases c') (auto intro: once_effect)
qed

text \<open>
  C1. In every state that a run of the walker can reach, under every interleaving of
  the suspended calls: the keys were added to the set one by one, none twice; the
  calls that started their fetches have distinct keys, all of them in the set, so no
  key is fetched twice, whatever the number of paths that lead to it; and each key of
  the set is either still waiting for \<open>mkdirp\<close> or has started its fetches, exactly
  once. A key enters the set in \<open>enter\<close>, before the call is first suspended, and
  the fetches start after that suspension.
\<close>

theorem walker_fetches_each_key_once:
  assumes "reachable e fs dependencies (s, t)"
  shows "distinct (processed s) \<and> set (processed s) = downloadedDependencies s
    \<and> distinct (map fst (fetches s))
    \<and> fst ` set (fetches s) \<subseteq> downloadedDependencies s
    \<and> mset (map fst (fetches s)) + mset (pending t) = mset (processed s)"
proof -
  from reachable_once [OF assms] have o: "distinct (processed s)"
    "set (processed s) = downloadedDependencies s"
    "mset (map fst (fetches s)) + mset (pending t) = mset (processed s)"
    by (auto simp: once_def)
  have "mset (map fst (fetches s) @ pending t) = mset (processed s)"
    using o(3) by simp
  then have "distinct (map fst (fetches s) @ pending t)"
    using o(1) mset_eq_imp_distinct_iff by blast
  then have d: "distinct (map fst (fetches s))" by simp
  have "set_mset (mset (map fst (fetches s)) + mset (pending t)) = set_mset (mset (processed s))"
    using o(3) by simp
  then have "set (map fst (fetches s)) \<subseteq> set (processed s)" by auto
  then show ?thesis using o d by auto
qed

theorem walker_fetches_each_key_once_witness:
  "reachable cycle_env Map.empty [A, A]
     (\<lparr>downloadedDependencies = {''g:a:1''}, files = Map.empty, processed = [''g:a:1''],
        fetches = [], crashed = False\<rparr>,
      AwaitChunk [AwaitMkdirp A, Done] [])
   \<and> pending (AwaitChunk [AwaitMkdirp A, Done] []) = [''g:a:1'']"
proof -
  have m: "main Map.empty [A, A]
     = (\<lparr>downloadedDependencies = {''g:a:1''}, files = Map.empty, processed = [''g:a:1''],
        fetches = [], crashed = False\<rparr>,
      AwaitChunk [AwaitMkdirp A, Done] [])"
    by (simp add: main_def chunks_def chunks_from.simps CONCURRENT_DOWNLOADS_def initial_state_def
        enter_def key_of_def dependencyKey_def A_def)
  have r: "reachable cycle_env Map.empty [A, A]
     (\<lparr>downloadedDependencies = {''g:a:1''}, files = Map.empty, processed = [''g:a:1''],
        fetches = [], crashed = False\<rparr>,
      AwaitChunk [AwaitMkdirp A, Done] [])"
    using reachable.Start [of cycle_env Map.empty "[A, A]"] m by simp
  show ?thesis
    using walker_fetches_each_key_once [OF r] r by (simp add: key_of_def dependencyKey_def A_def)
qed

section \<open>The walk terminates\<close>


lemma concat_chunks_from: "concat (chunks_from i xs) = drop i xs"
proof (induction i xs rule: chunks_from.induct)
  case (1 i xs)
  show ?case
  proof (cases "i < length xs")
    case True
    with "1" have "concat (chunks_from i xs) = take CONCURRENT_DOWNLOADS (drop i xs) @ drop (i + CONCURRENT_DOWNLOADS) xs"
      by (subst chunks_from.simps) simp
    also have "\<dots> = drop i xs"
      by (metis add.commute append_take_drop_id drop_drop)
    finally show ?thesis .
  next
    case False
    then show ?thesis by (subst chunks_from.simps) simp
  qed
qed

lemma set_chunks: "\<Union> (set (map set (chunks xs))) = set xs"
proof -
  have "\<Union> (set (map set (chunks xs))) = set (concat (chunks xs))" by simp
  then show ?thesis by (simp add: chunks_def concat_chunks_from)
qed

lemma enter_progress:
  assumes "enter s d = (s', t)"
  shows "awaits t = 2 * length (pending t) \<and> iterations t = 0 \<and> deps_in t \<subseteq> {d}"
  using assms by (auto simp: enter_def split: if_splits)

lemma dispatch_progress:
  "dispatch s ds = (s', ts) \<Longrightarrow>
   sum_list (map awaits ts) = 2 * length (concat (map pending ts))
   \<and> sum_list (map iterations ts) = 0 \<and> \<Union> (set (map deps_in ts)) \<subseteq> set ds"
proof (induction ds arbitrary: s s' ts)
  case Nil
  then show ?case by simp
next
  case (Cons d ds)
  obtain s1 t where e: "enter s d = (s1, t)" by (cases "enter s d")
  obtain s2 ts' where d: "dispatch s1 ds = (s2, ts')" by (cases "dispatch s1 ds")
  from Cons.prems e d have eq: "s' = s2" "ts = t # ts'" by auto
  from enter_progress [OF e] Cons.IH [OF d] eq show ?case by auto
qed

lemma unvisited_less:
  assumes "finite U" "downloadedDependencies s' = downloadedDependencies s \<union> set new"
    "set new \<inter> downloadedDependencies s = {}" "set new \<subseteq> key_of ` U" "new \<noteq> []"
  shows "unvisited U s' < unvisited U s"
proof -
  from assms(5) obtain k where k: "k \<in> set new" by (cases new) auto
  with assms(3,4) have "k \<in> key_of ` U - downloadedDependencies s" by auto
  moreover from k assms(2) have "k \<notin> key_of ` U - downloadedDependencies s'" by auto
  moreover have "key_of ` U - downloadedDependencies s' \<subseteq> key_of ` U - downloadedDependencies s"
    using assms(2) by auto
  ultimately have "key_of ` U - downloadedDependencies s' \<subset> key_of ` U - downloadedDependencies s"
    by blast
  moreover have "finite (key_of ` U - downloadedDependencies s)" using assms(1) by simp
  ultimately show ?thesis unfolding unvisited_def by (rule psubset_card_mono [rotated])
qed


lemma next_chunk_progress:
  assumes "next_chunk s cs = (s', t')" "finite U" "\<Union> (set (map set cs)) \<subseteq> U"
  shows "(unvisited U s' < unvisited U s
          \<or> unvisited U s' = unvisited U s \<and> awaits t' = 0 \<and> iterations t' \<le> length cs)
         \<and> deps_in t' \<subseteq> U"
proof (cases cs)
  case Nil
  with assms(1) show ?thesis by auto
next
  case (Cons c cs')
  obtain s1 ts where d: "dispatch s c = (s1, ts)" by (cases "dispatch s c")
  with assms(1) Cons have eq: "s' = s1" "t' = AwaitChunk ts cs'" by auto
  from dispatch_effect [OF d] obtain new where n:
    "downloadedDependencies s1 = downloadedDependencies s \<union> set new"
    "set new \<inter> downloadedDependencies s = {}"
    "concat (map pending ts) = new" "set new \<subseteq> key_of ` set c" by blast
  from dispatch_progress [OF d] have p: "sum_list (map awaits ts) = 2 * length new"
    "sum_list (map iterations ts) = 0" "\<Union> (set (map deps_in ts)) \<subseteq> set c"
    using n(3) by auto
  have cU: "set c \<subseteq> U" "\<Union> (set (map set cs')) \<subseteq> U" using assms(3) Cons by auto
  have deps: "deps_in t' \<subseteq> U" using eq p(3) cU by auto
  show ?thesis
  proof (cases "new = []")
    case True
    with n(1) eq have "unvisited U s' = unvisited U s" by (simp add: unvisited_def)
    moreover have "awaits t' = 0" using eq p(1) True by simp
    moreover have "iterations t' \<le> length cs" using eq p(2) Cons by simp
    ultimately show ?thesis using deps by simp
  next
    case False
    have "set new \<subseteq> key_of ` U" using n(4) cU(1) by auto
    from unvisited_less [OF assms(2) n(1) n(2) this False] eq deps show ?thesis by simp
  qed
qed

lemma check_pom_progress:
  assumes "check_pom e s d = (s', t')" "closed_under e U"
  shows "downloadedDependencies s' = downloadedDependencies s \<and> awaits t' = 0 \<and> deps_in t' \<subseteq> U"
proof (cases "files s (pomFilePath e d)")
  case None
  with assms(1) show ?thesis by (auto simp: check_pom_def)
next
  case (Some content)
  show ?thesis
  proof (cases "descriptor e content")
    case None
    with Some assms(1) show ?thesis by (auto simp: check_pom_def split: if_splits)
  next
    case (Some ds)
    with assms(2) have "set ds \<subseteq> U" by (auto simp: closed_under_def)
    with Some \<open>files s (pomFilePath e d) = Some content\<close> assms(1) show ?thesis
      by (auto simp: check_pom_def split: if_splits)
  qed
qed

lemma after_mkdirp_progress:
  assumes "after_mkdirp e s d = (s', t')" "closed_under e U" "d \<in> U"
  shows "downloadedDependencies s' = downloadedDependencies s \<and> awaits t' \<le> 1 \<and> deps_in t' \<subseteq> U"
proof -
  let ?ts = "downloadTasks e (files s) d"
  let ?s1 = "s\<lparr>fetches := fetches s @ [(key_of d, ?ts)]\<rparr>"
  show ?thesis
  proof (cases "?ts = []")
    case True
    with assms(1) have "check_pom e ?s1 d = (s', t')" by (simp add: after_mkdirp_def Let_def)
    from check_pom_progress [OF this assms(2)] show ?thesis by simp
  next
    case False
    with assms(1,3) show ?thesis by (auto simp: after_mkdirp_def Let_def)
  qed
qed

lemma after_downloads_progress:
  assumes "after_downloads e s d ts = (s', t')" "closed_under e U"
  shows "downloadedDependencies s' = downloadedDependencies s \<and> awaits t' = 0 \<and> deps_in t' \<subseteq> U"
proof -
  let ?s1 = "s\<lparr>files := write_files e (files s) ts\<rparr>"
  show ?thesis
  proof (cases "Uncaught \<in> set (outcomes e ts) \<or> list_ex is_rejected (outcomes e ts)
                \<or> Unsettled \<in> set (outcomes e ts)")
    case True
    with assms(1) show ?thesis by (auto simp: after_downloads_def Let_def split: if_splits)
  next
    case False
    with assms(1) have "check_pom e ?s1 d = (s', t')" by (auto simp: after_downloads_def Let_def)
    from check_pom_progress [OF this assms(2)] show ?thesis by simp
  qed
qed

lemma awaits_finished: "list_all finished ts \<Longrightarrow> sum_list (map awaits ts) = 0"
proof (induction ts)
  case Nil
  then show ?case by simp
next
  case (Cons t ts)
  then show ?case by (cases t) auto
qed

lemma step_progress:
  assumes "step e c c'" "finite U" "closed_under e U" "deps_in (snd c) \<subseteq> U"
  shows "lex3 (progress U c') (progress U c) \<and> deps_in (snd c') \<subseteq> U"
  using assms
proof (induction rule: step.induct)
  case (Mkdirp s d)
  obtain s' t' where a: "after_mkdirp e s d = (s', t')" by (cases "after_mkdirp e s d")
  from Mkdirp have "d \<in> U" by simp
  from after_mkdirp_progress [OF a Mkdirp(2) this] a show ?case
    by (simp add: lex3_def progress_def unvisited_def)
next
  case (Downloads s d ts)
  obtain s' t' where a: "after_downloads e s d ts = (s', t')" by (cases "after_downloads e s d ts")
  from after_downloads_progress [OF a Downloads(2)] a show ?case
    by (simp add: lex3_def progress_def unvisited_def)
next
  case (Parse s r)
  show ?case
  proof (cases r)
    case None
    then show ?thesis by (simp add: lex3_def progress_def)
  next
    case (Some ds)
    obtain s' t' where a: "next_chunk s (chunks ds) = (s', t')" by (cases "next_chunk s (chunks ds)")
    have "\<Union> (set (map set (chunks ds))) \<subseteq> U" using Parse(3) Some by (simp only: set_chunks) simp
    from next_chunk_progress [OF a Parse(1) this] a Some show ?thesis
      by (auto simp: lex3_def progress_def)
  qed
next
  case (Chunk ts s cs)
  obtain s' t' where a: "next_chunk s cs = (s', t')" by (cases "next_chunk s cs")
  have "\<Union> (set (map set cs)) \<subseteq> U" using Chunk(4) by simp
  from next_chunk_progress [OF a Chunk(2) this] a awaits_finished [OF Chunk(1)] show ?case
    by (auto simp: lex3_def progress_def)
next
  case (Inner s t s' t' ts1 ts2 cs)
  have "deps_in t \<subseteq> U" using Inner(5) by auto
  with Inner have ih: "lex3 (progress U (s', t')) (progress U (s, t))" "deps_in t' \<subseteq> U" by auto
  have "deps_in (AwaitChunk (ts1 @ t' # ts2) cs) \<subseteq> U" using Inner(5) ih(2) by auto
  moreover have "lex3 (progress U (s', AwaitChunk (ts1 @ t' # ts2) cs))
                      (progress U (s, AwaitChunk (ts1 @ t # ts2) cs))"
    using ih(1) by (auto simp: lex3_def progress_def)
  ultimately show ?case by simp
qed


section \<open>The run on the two-node cycle\<close>




lemma chunks_Nil: "chunks [] = []"
  by (simp add: chunks_def chunks_from.simps)

lemma chunks_small:
  assumes "xs \<noteq> []" "length xs \<le> CONCURRENT_DOWNLOADS"
  shows "chunks xs = [xs]"
proof -
  have "chunks_from (0 + CONCURRENT_DOWNLOADS) xs = []"
    using assms(2) by (subst chunks_from.simps) simp
  moreover have "chunks_from 0 xs = take CONCURRENT_DOWNLOADS (drop 0 xs) # chunks_from (0 + CONCURRENT_DOWNLOADS) xs"
    using assms(1) by (subst chunks_from.simps) simp
  ultimately show ?thesis using assms(2) by (simp add: chunks_def)
qed

lemma chunks_single: "chunks [x] = [[x]]"
  by (rule chunks_small) (simp_all add: CONCURRENT_DOWNLOADS_def)

lemma cycle_names:
  "key_of A = ''g:a:1''" "key_of B = ''g:b:1''"
  "downloadTasks cycle_env fs A = (if fs ''repository/g/a/1/a-1.jar'' = None then [tasks_A ! 0] else []) @ (if fs ''repository/g/a/1/a-1.pom'' = None then [tasks_A ! 1] else [])"
  "downloadTasks cycle_env fs B = (if fs ''repository/g/b/1/b-1.jar'' = None then [tasks_B ! 0] else []) @ (if fs ''repository/g/b/1/b-1.pom'' = None then [tasks_B ! 1] else [])"
  "pomFilePath cycle_env A = ''repository/g/a/1/a-1.pom''"
  "pomFilePath cycle_env B = ''repository/g/b/1/b-1.pom''"
  by (simp_all add: key_of_def dependencyKey_def A_def B_def downloadTasks_def localJarPath_def
      pomFilePath_def localPath_def cycle_env_def jarUrl_def pomUrl_def MAVEN_CENTRAL_URL_def
      artifactPath_def jarName_def pomName_def actualVersion_def includes_chr_def replace_dots_def tasks_A_def tasks_B_def)


lemma step_Mkdirp_iff: "step e (s, AwaitMkdirp d) c' \<longleftrightarrow> c' = after_mkdirp e s d"
  by (auto elim: step.cases intro: step.intros)

lemma step_Downloads_iff: "step e (s, AwaitDownloads d ts) c' \<longleftrightarrow> c' = after_downloads e s d ts"
  by (auto elim: step.cases intro: step.intros)

lemma step_Parse_iff: "step e (s, AwaitParse r) c' \<longleftrightarrow> c' = after_parse s r"
  by (auto elim: step.cases intro: step.intros)

lemma step_Done_iff: "step e (s, Done) c' \<longleftrightarrow> False"
  by (auto elim: step.cases)

lemma step_Hung_iff: "step e (s, Hung) c' \<longleftrightarrow> False"
  by (auto elim: step.cases)

inductive_cases step_ChunkE: "step e (s, AwaitChunk ts cs) c'"

lemma step_single_iff:
  "step e (s, AwaitChunk [t] cs) c' \<longleftrightarrow>
     (finished t \<and> c' = next_chunk s cs)
     \<or> (\<exists>s' t'. step e (s, t) (s', t') \<and> c' = (s', AwaitChunk [t'] cs))"
proof
  assume "step e (s, AwaitChunk [t] cs) c'"
  then show "(finished t \<and> c' = next_chunk s cs)
     \<or> (\<exists>s' t'. step e (s, t) (s', t') \<and> c' = (s', AwaitChunk [t'] cs))"
    by (rule step_ChunkE) (auto simp: Cons_eq_append_conv)
next
  assume "(finished t \<and> c' = next_chunk s cs)
     \<or> (\<exists>s' t'. step e (s, t) (s', t') \<and> c' = (s', AwaitChunk [t'] cs))"
  then show "step e (s, AwaitChunk [t] cs) c'"
  proof
    assume "finished t \<and> c' = next_chunk s cs"
    then show ?thesis using step.Chunk [of "[t]" e s cs] by simp
  next
    assume "\<exists>s' t'. step e (s, t) (s', t') \<and> c' = (s', AwaitChunk [t'] cs)"
    then obtain s' t' where "step e (s, t) (s', t')" "c' = (s', AwaitChunk [t'] cs)" by blast
    then show ?thesis using step.Inner [of e s t s' t' "[]" "[]" cs] by simp
  qed
qed


lemma cycle_downloads:
  "downloadFile PROXY_CONFIG cycle_server ''https://repo1.maven.org/maven2/g/a/1/a-1.jar'' d
     = (Resolved, [CreateWriteStream d, Get ''https://repo1.maven.org/maven2/g/a/1/a-1.jar'' (request_options PROXY_CONFIG), Pipe ''jar-a''])"
  "downloadFile PROXY_CONFIG cycle_server ''https://repo1.maven.org/maven2/g/a/1/a-1.pom'' d
     = (Resolved, [CreateWriteStream d, Get ''https://repo1.maven.org/maven2/g/a/1/a-1.pom'' (request_options PROXY_CONFIG), Pipe ''pom-a''])"
  "downloadFile PROXY_CONFIG cycle_server ''https://repo1.maven.org/maven2/g/b/1/b-1.jar'' d
     = (Resolved, [CreateWriteStream d, Get ''https://repo1.maven.org/maven2/g/b/1/b-1.jar'' (request_options PROXY_CONFIG), Pipe ''jar-b''])"
  "downloadFile PROXY_CONFIG cycle_server ''https://repo1.maven.org/maven2/g/b/1/b-1.pom'' d
     = (Resolved, [CreateWriteStream d, Get ''https://repo1.maven.org/maven2/g/b/1/b-1.pom'' (request_options PROXY_CONFIG), Pipe ''pom-b''])"
  by (simp_all add: downloadFile_def cycle_server_def terminal_response_def Let_def)

lemma cycle_env_fields: "descriptor cycle_env = cycle_descriptor" "proxy cycle_env = PROXY_CONFIG"
  "server cycle_env = cycle_server"
  by (simp_all add: cycle_env_def)

lemma cycle_dep_fields: "groupId A \<noteq> []" "artifactId A \<noteq> []" "version A \<noteq> []"
  "groupId B \<noteq> []" "artifactId B \<noteq> []" "version B \<noteq> []"
  by (simp_all add: A_def B_def)

lemma cycle_next_0: "step cycle_env (cycle_run ! 0) c' \<longleftrightarrow> c' = cycle_run ! 1"
  by (auto simp: cycle_run_def cycle_state_def cycle_end_def step_single_iff step_Mkdirp_iff
      step_Downloads_iff step_Parse_iff step_Done_iff step_Hung_iff after_mkdirp_def
      after_downloads_def check_pom_def cycle_names tasks_A_def tasks_B_def files_A_def files_AB_def
      write_files_def outcomes_def is_rejected_def cycle_downloads files_after_def cycle_env_fields cycle_dep_fields
      cycle_descriptor_def chunks_single chunks_Nil enter_def Let_def)

lemma cycle_next_1: "step cycle_env (cycle_run ! 1) c' \<longleftrightarrow> c' = cycle_run ! 2"
  by (auto simp: cycle_run_def cycle_state_def cycle_end_def step_single_iff step_Mkdirp_iff
      step_Downloads_iff step_Parse_iff step_Done_iff step_Hung_iff after_mkdirp_def
      after_downloads_def check_pom_def cycle_names tasks_A_def tasks_B_def files_A_def files_AB_def
      write_files_def outcomes_def is_rejected_def cycle_downloads files_after_def cycle_env_fields cycle_dep_fields
      cycle_descriptor_def chunks_single chunks_Nil enter_def Let_def)

lemma cycle_next_2: "step cycle_env (cycle_run ! 2) c' \<longleftrightarrow> c' = cycle_run ! 3"
  by (auto simp: cycle_run_def cycle_state_def cycle_end_def step_single_iff step_Mkdirp_iff
      step_Downloads_iff step_Parse_iff step_Done_iff step_Hung_iff after_mkdirp_def
      after_downloads_def check_pom_def cycle_names tasks_A_def tasks_B_def files_A_def files_AB_def
      write_files_def outcomes_def is_rejected_def cycle_downloads files_after_def cycle_env_fields cycle_dep_fields
      cycle_descriptor_def chunks_single chunks_Nil enter_def Let_def)

lemma cycle_next_3: "step cycle_env (cycle_run ! 3) c' \<longleftrightarrow> c' = cycle_run ! 4"
  by (auto simp: cycle_run_def cycle_state_def cycle_end_def step_single_iff step_Mkdirp_iff
      step_Downloads_iff step_Parse_iff step_Done_iff step_Hung_iff after_mkdirp_def
      after_downloads_def check_pom_def cycle_names tasks_A_def tasks_B_def files_A_def files_AB_def
      write_files_def outcomes_def is_rejected_def cycle_downloads files_after_def cycle_env_fields cycle_dep_fields
      cycle_descriptor_def chunks_single chunks_Nil enter_def Let_def)

lemma cycle_next_4: "step cycle_env (cycle_run ! 4) c' \<longleftrightarrow> c' = cycle_run ! 5"
  by (auto simp: cycle_run_def cycle_state_def cycle_end_def step_single_iff step_Mkdirp_iff
      step_Downloads_iff step_Parse_iff step_Done_iff step_Hung_iff after_mkdirp_def
      after_downloads_def check_pom_def cycle_names tasks_A_def tasks_B_def files_A_def files_AB_def
      write_files_def outcomes_def is_rejected_def cycle_downloads files_after_def cycle_env_fields cycle_dep_fields
      cycle_descriptor_def chunks_single chunks_Nil enter_def Let_def)

lemma cycle_next_5: "step cycle_env (cycle_run ! 5) c' \<longleftrightarrow> c' = cycle_run ! 6"
  by (auto simp: cycle_run_def cycle_state_def cycle_end_def step_single_iff step_Mkdirp_iff
      step_Downloads_iff step_Parse_iff step_Done_iff step_Hung_iff after_mkdirp_def
      after_downloads_def check_pom_def cycle_names tasks_A_def tasks_B_def files_A_def files_AB_def
      write_files_def outcomes_def is_rejected_def cycle_downloads files_after_def cycle_env_fields cycle_dep_fields
      cycle_descriptor_def chunks_single chunks_Nil enter_def Let_def)

lemma cycle_next_6: "step cycle_env (cycle_run ! 6) c' \<longleftrightarrow> c' = cycle_run ! 7"
  by (auto simp: cycle_run_def cycle_state_def cycle_end_def step_single_iff step_Mkdirp_iff
      step_Downloads_iff step_Parse_iff step_Done_iff step_Hung_iff after_mkdirp_def
      after_downloads_def check_pom_def cycle_names tasks_A_def tasks_B_def files_A_def files_AB_def
      write_files_def outcomes_def is_rejected_def cycle_downloads files_after_def cycle_env_fields cycle_dep_fields
      cycle_descriptor_def chunks_single chunks_Nil enter_def Let_def)

lemma cycle_next_7: "step cycle_env (cycle_run ! 7) c' \<longleftrightarrow> c' = cycle_run ! 8"
  by (auto simp: cycle_run_def cycle_state_def cycle_end_def step_single_iff step_Mkdirp_iff
      step_Downloads_iff step_Parse_iff step_Done_iff step_Hung_iff after_mkdirp_def
      after_downloads_def check_pom_def cycle_names tasks_A_def tasks_B_def files_A_def files_AB_def
      write_files_def outcomes_def is_rejected_def cycle_downloads files_after_def cycle_env_fields cycle_dep_fields
      cycle_descriptor_def chunks_single chunks_Nil enter_def Let_def)

lemma cycle_next_8: "step cycle_env (cycle_run ! 8) c' \<longleftrightarrow> c' = cycle_run ! 9"
  by (auto simp: cycle_run_def cycle_state_def cycle_end_def step_single_iff step_Mkdirp_iff
      step_Downloads_iff step_Parse_iff step_Done_iff step_Hung_iff after_mkdirp_def
      after_downloads_def check_pom_def cycle_names tasks_A_def tasks_B_def files_A_def files_AB_def
      write_files_def outcomes_def is_rejected_def cycle_downloads files_after_def cycle_env_fields cycle_dep_fields
      cycle_descriptor_def chunks_single chunks_Nil enter_def Let_def)



lemma wf_lex3: "wf {(p, q). lex3 p q}"
proof -
  have "{(p, q). lex3 p q} \<subseteq> less_than <*lex*> less_than <*lex*> less_than"
    by (auto simp: lex3_def)
  moreover have "wf (less_than <*lex*> less_than <*lex*> less_than)" by auto
  ultimately show ?thesis by (rule wf_subset [rotated])
qed

lemma main_deps:
  assumes "finite U" "set dependencies \<subseteq> U"
  shows "deps_in (snd (main fs dependencies)) \<subseteq> U"
proof -
  obtain s t where m: "next_chunk (initial_state fs) (chunks dependencies) = (s, t)"
    by (cases "next_chunk (initial_state fs) (chunks dependencies)")
  have "\<Union> (set (map set (chunks dependencies))) \<subseteq> U" using assms(2) by (simp only: set_chunks)
  from next_chunk_progress [OF m assms(1) this] m show ?thesis by (simp add: main_def)
qed

lemma reachable_deps:
  assumes "reachable e fs dependencies c" "finite U" "set dependencies \<subseteq> U" "closed_under e U"
  shows "deps_in (snd c) \<subseteq> U"
  using assms
proof (induction rule: reachable.induct)
  case Start
  then show ?case by (simp add: main_deps)
next
  case (Next c c')
  then have "step e c c'" "deps_in (snd c) \<subseteq> U" by (simp_all add: run_step_def)
  from step_progress [OF this(1) Next(4) Next(6) this(2)] show ?case by simp
qed

lemma cycle_main: "main Map.empty [A] = cycle_run ! 0"
  by (simp add: main_def initial_state_def chunks_single enter_def cycle_dep_fields cycle_names
      cycle_run_def cycle_state_def)

lemma cycle_next:
  assumes "i < 9"
  shows "step cycle_env (cycle_run ! i) c' \<longleftrightarrow> c' = cycle_run ! Suc i"
proof -
  from assms have "i = 0 \<or> i = 1 \<or> i = 2 \<or> i = 3 \<or> i = 4 \<or> i = 5 \<or> i = 6 \<or> i = 7 \<or> i = 8"
    by arith
  then show ?thesis
    using cycle_next_0 [of c'] cycle_next_1 [of c'] cycle_next_2 [of c'] cycle_next_3 [of c']
      cycle_next_4 [of c'] cycle_next_5 [of c'] cycle_next_6 [of c'] cycle_next_7 [of c']
      cycle_next_8 [of c']
    by (elim disjE) (simp_all add: eval_nat_numeral)
qed

lemma cycle_not_crashed: "i < 10 \<Longrightarrow> \<not> crashed (fst (cycle_run ! i))"
proof -
  have "\<forall>c \<in> set cycle_run. \<not> crashed (fst c)"
    by (simp add: cycle_run_def cycle_state_def cycle_end_def)
  moreover have "length cycle_run = 10" by (simp add: cycle_run_def)
  moreover assume "i < 10"
  ultimately have "cycle_run ! i \<in> set cycle_run" by (metis nth_mem)
  moreover note \<open>\<forall>c \<in> set cycle_run. \<not> crashed (fst c)\<close>
  ultimately show ?thesis by blast
qed

lemma cycle_last: "cycle_run ! 9 = (cycle_end, Done)"
  by (simp add: cycle_run_def)

lemma reachable_cycle:
  "reachable cycle_env Map.empty [A] c \<Longrightarrow> \<exists>i<10. c = cycle_run ! i"
proof (induction rule: reachable.induct)
  case Start
  have "(0::nat) < 10 \<and> main Map.empty [A] = cycle_run ! 0" using cycle_main by simp
  then show ?case by blast
next
  case (Next c c')
  then obtain i where i: "i < 10" "c = cycle_run ! i" by blast
  from Next(2) have st: "step cycle_env c c'" by (simp add: run_step_def)
  show ?case
  proof (cases "i < 9")
    case True
    with st i cycle_next [OF True, of c'] have "c' = cycle_run ! Suc i" by simp
    with True have "Suc i < 10 \<and> c' = cycle_run ! Suc i" by simp
    then show ?thesis by blast
  next
    case False
    with i(1) have "i = 9" by arith
    with i have "c = (cycle_end, Done)" using cycle_last by simp
    with st show ?thesis by (simp add: step_Done_iff)
  qed
qed

lemma cycle_final:
  assumes "reachable cycle_env Map.empty [A] c" "final cycle_env c"
  shows "c = (cycle_end, Done)"
proof -
  from reachable_cycle [OF assms(1)] obtain i where i: "i < 10" "c = cycle_run ! i" by blast
  show ?thesis
  proof (cases "i < 9")
    case True
    then have "step cycle_env c (cycle_run ! Suc i)" using cycle_next [OF True] i by simp
    moreover have "\<not> crashed (fst c)" using cycle_not_crashed i by simp
    ultimately have "run_step cycle_env c (cycle_run ! Suc i)" by (simp add: run_step_def)
    with assms(2) have False unfolding final_def by blast
    then show ?thesis ..
  next
    case False
    with i(1) have "i = 9" by arith
    with i show ?thesis using cycle_last by simp
  qed
qed

text \<open>
  C3. Let \<open>U\<close> be a finite set of dependencies that holds the roots and every
  dependency that any descriptor names. Then the steps of the walker, taken from
  reachable states, form a well-founded relation: no run goes on forever, whichever
  suspended call resumes next. Each step adds a key of \<open>U\<close> to the set, or else
  brings a suspended call nearer to reading its descriptor, or else ends an iteration
  over the chunks. In the cycle of \<open>A\<close> and \<open>B\<close>, every run from the root
  \<open>A\<close> that can go no further has finished, and has fetched for \<open>A\<close> once and
  for \<open>B\<close> once.
\<close>

theorem walk_terminates:
  assumes "finite U" "set dependencies \<subseteq> U" "closed_under e U"
  shows "wf {(c', c). reachable e fs dependencies c \<and> run_step e c c'}
    \<and> (\<forall>c. reachable cycle_env Map.empty [A] c \<and> final cycle_env c \<longrightarrow>
          snd c = Done \<and> fetches (fst c) = [(key_of A, tasks_A), (key_of B, tasks_B)])"
proof
  have "{(c', c). reachable e fs dependencies c \<and> run_step e c c'}
      \<subseteq> inv_image {(p, q). lex3 p q} (progress U)"
  proof clarify
    fix s' t' s t
    assume r: "reachable e fs dependencies (s, t)" and st: "run_step e (s, t) (s', t')"
    from reachable_deps [OF r assms] have "deps_in (snd (s, t)) \<subseteq> U" .
    moreover from st have "step e (s, t) (s', t')" by (simp add: run_step_def)
    ultimately have "lex3 (progress U (s', t')) (progress U (s, t))"
      using step_progress assms(1,3) by blast
    then show "((s', t'), (s, t)) \<in> inv_image {(p, q). lex3 p q} (progress U)" by simp
  qed
  moreover have "wf (inv_image {(p, q). lex3 p q} (progress U))"
    using wf_lex3 by (rule wf_inv_image)
  ultimately show "wf {(c', c). reachable e fs dependencies c \<and> run_step e c c'}"
    by (rule wf_subset [rotated])
next
  show "\<forall>c. reachable cycle_env Map.empty [A] c \<and> final cycle_env c \<longrightarrow>
          snd c = Done \<and> fetches (fst c) = [(key_of A, tasks_A), (key_of B, tasks_B)]"
  proof (intro allI impI)
    fix c
    assume "reachable cycle_env Map.empty [A] c \<and> final cycle_env c"
    then have "c = (cycle_end, Done)" using cycle_final by blast
    then show "snd c = Done \<and> fetches (fst c) = [(key_of A, tasks_A), (key_of B, tasks_B)]"
      by (simp add: cycle_end_def cycle_state_def cycle_names)
  qed
qed

theorem walk_terminates_witness:
  "finite {A, B} \<and> set [A] \<subseteq> {A, B} \<and> closed_under cycle_env {A, B}
   \<and> wf {(c', c). reachable cycle_env Map.empty [A] c \<and> run_step cycle_env c c'}"
proof -
  have h1: "finite {A, B}" by simp
  have h2: "set [A] \<subseteq> {A, B}" by simp
  have h3: "closed_under cycle_env {A, B}"
    by (auto simp: closed_under_def cycle_env_def cycle_descriptor_def split: if_splits)
  show ?thesis using walk_terminates [OF h1 h2 h3, of Map.empty] h1 h2 h3 by simp
qed

section \<open>Files that are already there are not fetched\<close>


lemma jar_pom_differ: "jarUrl g a v \<noteq> pomUrl g a v"
  by (simp add: jarUrl_def pomUrl_def jarName_def pomName_def)

lemma downloadTasks_jar:
  "(jarUrl (groupId d) (artifactId d) (version d), localJarPath e d) \<in> set (downloadTasks e fs d)
   \<longleftrightarrow> fs (localJarPath e d) = None"
  using jar_pom_differ by (auto simp: downloadTasks_def)

lemma downloadTasks_pom:
  "(pomUrl (groupId d) (artifactId d) (version d), pomFilePath e d) \<in> set (downloadTasks e fs d)
   \<longleftrightarrow> fs (pomFilePath e d) = None"
  using jar_pom_differ [of "groupId d" "artifactId d" "version d"]
  by (auto simp: downloadTasks_def)

lemma enter_quiet:
  assumes "enter s d = (s', t)"
  shows "files s' = files s \<and> fetches s' = fetches s \<and> \<not> fetching t"
  using assms by (auto simp: enter_def split: if_splits)

lemma dispatch_quiet:
  "dispatch s ds = (s', ts) \<Longrightarrow>
   files s' = files s \<and> fetches s' = fetches s \<and> \<not> list_ex fetching ts"
proof (induction ds arbitrary: s s' ts)
  case Nil
  then show ?case by simp
next
  case (Cons d ds)
  obtain s1 t where e: "enter s d = (s1, t)" by (cases "enter s d")
  obtain s2 ts' where d: "dispatch s1 ds = (s2, ts')" by (cases "dispatch s1 ds")
  from Cons.prems e d have eq: "s' = s2" "ts = t # ts'" by auto
  from enter_quiet [OF e] Cons.IH [OF d] eq show ?case by auto
qed

lemma next_chunk_quiet:
  assumes "next_chunk s cs = (s', t')" "\<Union> (set (map set cs)) \<subseteq> U"
  shows "files s' = files s \<and> fetches s' = fetches s \<and> \<not> fetching t' \<and> deps_in t' \<subseteq> U"
proof (cases cs)
  case Nil
  with assms(1) show ?thesis by auto
next
  case (Cons c cs')
  obtain s1 ts where d: "dispatch s c = (s1, ts)" by (cases "dispatch s c")
  with assms(1) Cons have eq: "s' = s1" "t' = AwaitChunk ts cs'" by auto
  from dispatch_progress [OF d] have "\<Union> (set (map deps_in ts)) \<subseteq> set c" by simp
  with assms(2) Cons have "deps_in t' \<subseteq> U" using eq by auto
  with dispatch_quiet [OF d] eq show ?thesis by simp
qed

lemma after_mkdirp_quiet:
  assumes "closed_under e U" "d \<in> U"
    and "present_nonempty (files s) (localJarPath e d)"
    and "present_nonempty (files s) (pomFilePath e d)"
    and "after_mkdirp e s d = (s', t')"
  shows "files s' = files s \<and> fetches s' = fetches s @ [(key_of d, [])]
     \<and> \<not> fetching t' \<and> deps_in t' \<subseteq> U"
proof -
  from assms(3,4) obtain cj cp where f: "files s (localJarPath e d) = Some cj"
    "files s (pomFilePath e d) = Some cp" "cp \<noteq> []"
    by (auto simp: present_nonempty_def split: option.splits)
  then have ts: "downloadTasks e (files s) d = []" by (simp add: downloadTasks_def)
  have "deps_in (AwaitParse (descriptor e cp)) \<subseteq> U"
    using assms(1) by (cases "descriptor e cp") (auto simp: closed_under_def)
  with assms(5) ts f show ?thesis
    by (auto simp: after_mkdirp_def check_pom_def Let_def)
qed

lemma fetching_finished: "list_all finished ts \<Longrightarrow> \<not> list_ex fetching ts"
proof (induction ts)
  case Nil
  then show ?case by simp
next
  case (Cons t ts)
  then show ?case by (cases t) auto
qed

lemma step_quiet:
  assumes "step e c c'" "closed_under e U"
    and "\<forall>d \<in> U. present_nonempty fs (localJarPath e d) \<and> present_nonempty fs (pomFilePath e d)"
    and "quiet U fs c"
  shows "quiet U fs c'"
  using assms
proof (induction rule: step.induct)
  case (Mkdirp s d)
  obtain s' t' where a: "after_mkdirp e s d = (s', t')" by (cases "after_mkdirp e s d")
  from Mkdirp(3) have q: "files s = fs" "d \<in> U" "list_all (\<lambda>(k, ts). ts = []) (fetches s)"
    by (simp_all add: quiet_def)
  with Mkdirp(2) have "present_nonempty (files s) (localJarPath e d)"
    "present_nonempty (files s) (pomFilePath e d)" by auto
  from after_mkdirp_quiet [OF Mkdirp(1) q(2) this a] a q show ?case by (simp add: quiet_def)
next
  case (Downloads s d ts)
  then show ?case by (simp add: quiet_def)
next
  case (Parse s r)
  show ?case
  proof (cases r)
    case None
    with Parse show ?thesis by (simp add: quiet_def)
  next
    case (Some ds)
    obtain s' t' where a: "next_chunk s (chunks ds) = (s', t')" by (cases "next_chunk s (chunks ds)")
    have "\<Union> (set (map set (chunks ds))) \<subseteq> U"
      using Parse(3) Some by (simp only: set_chunks) (simp add: quiet_def)
    from next_chunk_quiet [OF a this] a Some Parse(3) show ?thesis by (simp add: quiet_def)
  qed
next
  case (Chunk ts s cs)
  obtain s' t' where a: "next_chunk s cs = (s', t')" by (cases "next_chunk s cs")
  have "\<Union> (set (map set cs)) \<subseteq> U" using Chunk(4) by (simp add: quiet_def)
  from next_chunk_quiet [OF a this] a Chunk(4) show ?case by (simp add: quiet_def)
next
  case (Inner s t s' t' ts1 ts2 cs)
  from Inner(5) have "quiet U fs (s, t)" by (auto simp: quiet_def)
  with Inner have "quiet U fs (s', t')" by simp
  with Inner(5) show ?case by (auto simp: quiet_def)
qed

lemma main_quiet:
  assumes "set dependencies \<subseteq> U"
  shows "quiet U fs (main fs dependencies)"
proof -
  obtain s t where m: "next_chunk (initial_state fs) (chunks dependencies) = (s, t)"
    by (cases "next_chunk (initial_state fs) (chunks dependencies)")
  have "\<Union> (set (map set (chunks dependencies))) \<subseteq> U" using assms by (simp only: set_chunks)
  from next_chunk_quiet [OF m this] m show ?thesis
    by (simp add: main_def quiet_def initial_state_def)
qed

text \<open>
  C4, amended. Each of the two files is fetched exactly when no file is at its path:
  a file that exists is skipped whether it is empty or not. And when every file of
  every dependency of \<open>U\<close> is there and non-empty, where \<open>U\<close> holds the roots
  and all that the descriptors name, a walk starts no fetch and leaves the files as
  they are: every call that gets past \<open>mkdirp\<close> has nothing to download.
\<close>

theorem existing_files_are_skipped:
  assumes "closed_under e U" "set dependencies \<subseteq> U"
    and "\<forall>d \<in> U. present_nonempty fs (localJarPath e d) \<and> present_nonempty fs (pomFilePath e d)"
    and "reachable e fs dependencies c"
  shows "((jarUrl (groupId d') (artifactId d') (version d'), localJarPath e d')
            \<in> set (downloadTasks e fs' d') \<longleftrightarrow> fs' (localJarPath e d') = None)
    \<and> ((pomUrl (groupId d') (artifactId d') (version d'), pomFilePath e d')
            \<in> set (downloadTasks e fs' d') \<longleftrightarrow> fs' (pomFilePath e d') = None)
    \<and> list_all (\<lambda>(k, ts). ts = []) (fetches (fst c)) \<and> files (fst c) = fs"
proof -
  have "quiet U fs c" using assms(4)
  proof (induction rule: reachable.induct)
    case Start
    then show ?case using assms(2) by (rule main_quiet)
  next
    case (Next c c')
    then have "step e c c'" by (simp add: run_step_def)
    from step_quiet [OF this assms(1) assms(3) Next.IH] show ?case .
  qed
  then show ?thesis using downloadTasks_jar downloadTasks_pom by (simp add: quiet_def)
qed

text \<open>
  C4, as stated: a file is skipped exactly when it exists and is non-empty. An
  artifact file that exists and is empty is skipped as well.
\<close>

theorem empty_file_is_skipped:
  "[''repository/g/a/1/a-1.jar'' \<mapsto> []] (localJarPath cycle_env A) = Some []
   \<and> \<not> present_nonempty [''repository/g/a/1/a-1.jar'' \<mapsto> []] (localJarPath cycle_env A)
   \<and> (jarUrl (groupId A) (artifactId A) (version A), localJarPath cycle_env A)
        \<notin> set (downloadTasks cycle_env [''repository/g/a/1/a-1.jar'' \<mapsto> []] A)"
  by (simp add: present_nonempty_def downloadTasks_def localJarPath_def
      pomFilePath_def localPath_def cycle_env_def jarUrl_def pomUrl_def MAVEN_CENTRAL_URL_def
      artifactPath_def jarName_def pomName_def actualVersion_def includes_chr_def replace_dots_def A_def)


text \<open>A second run on the cycle, with the four files of the first run in place.\<close>


lemma jar_paths:
  "localJarPath cycle_env A = ''repository/g/a/1/a-1.jar''"
  "localJarPath cycle_env B = ''repository/g/b/1/b-1.jar''"
  by (simp_all add: localJarPath_def localPath_def cycle_env_def artifactPath_def jarName_def
      actualVersion_def includes_chr_def replace_dots_def A_def B_def)

lemma cycle_files_present: "\<forall>d \<in> {A, B}. present_nonempty files_AB (localJarPath cycle_env d)
                \<and> present_nonempty files_AB (pomFilePath cycle_env d)"
  by (simp add: present_nonempty_def files_AB_def files_A_def jar_paths cycle_names)

lemma cycle_rerun_main: "main files_AB [A] = (cycle_state [''g:a:1''] files_AB [], AwaitChunk [AwaitMkdirp A] [])"
  by (simp add: main_def initial_state_def chunks_single enter_def cycle_dep_fields cycle_names
        cycle_state_def)

lemma cycle_rerun_tasks: "downloadTasks cycle_env files_AB A = []"
  by (simp add: cycle_names files_AB_def files_A_def)


lemma files_AB_A: "files_AB ''repository/g/a/1/a-1.pom'' = Some ''pom-a''"
  "files_AB ''repository/g/a/1/a-1.jar'' = Some ''jar-a''"
  by (simp_all add: files_AB_def files_A_def)

lemma cycle_rerun_after_mkdirp: "after_mkdirp cycle_env (cycle_state [''g:a:1''] files_AB []) A
   = (cycle_state [''g:a:1''] files_AB [(''g:a:1'', [])], AwaitParse (Some [B]))"
  by (simp add: after_mkdirp_def cycle_rerun_tasks check_pom_def cycle_names cycle_state_def files_AB_A
      cycle_env_fields cycle_descriptor_def)

lemma cycle_rerun_step: "step cycle_env (cycle_state [''g:a:1''] files_AB [], AwaitChunk [AwaitMkdirp A] [])
     (cycle_state [''g:a:1''] files_AB [(''g:a:1'', [])], AwaitChunk [AwaitParse (Some [B])] [])"
  by (simp add: step_single_iff step_Mkdirp_iff cycle_rerun_after_mkdirp)


theorem existing_files_are_skipped_witness:
  "reachable cycle_env files_AB [A]
     (cycle_state [''g:a:1''] files_AB [(''g:a:1'', [])], AwaitChunk [AwaitParse (Some [B])] [])
   \<and> downloadTasks cycle_env files_AB A = []"
proof -
  let ?c0 = "(cycle_state [''g:a:1''] files_AB [], AwaitChunk [AwaitMkdirp A] [])"
  let ?c1 = "(cycle_state [''g:a:1''] files_AB [(''g:a:1'', [])], AwaitChunk [AwaitParse (Some [B])] [])"
  have h1: "closed_under cycle_env {A, B}"
    by (auto simp: closed_under_def cycle_env_def cycle_descriptor_def split: if_splits)
  have h2: "set [A] \<subseteq> {A, B}" by simp
  have "\<not> crashed (fst ?c0)" by (simp add: cycle_state_def)
  with cycle_rerun_step have "run_step cycle_env ?c0 ?c1" unfolding run_step_def by blast
  moreover have "reachable cycle_env files_AB [A] ?c0"
    using reachable.Start [of cycle_env files_AB "[A]"] by (simp only: cycle_rerun_main)
  ultimately have r: "reachable cycle_env files_AB [A] ?c1" by (rule reachable.Next [rotated])
  from existing_files_are_skipped [OF h1 h2 cycle_files_present r] r cycle_rerun_tasks show ?thesis by blast
qed


end
